theory Spec2Isabelle
  imports Complex_Main "HOL-Library.Word" "HOL-Library.Signed_Division" "HOL-Library.Stream"
    "HOL-Library.Log_Nat"
begin

unbundle bit_operations_syntax

section \<open>Configuration (js/game/config.js)\<close>

definition CHUNK_SIZE :: int where
  "CHUNK_SIZE = 16"

definition WORLD_HEIGHT :: int where
  "WORLD_HEIGHT = 64"

text \<open>
  The \<open>BLOCKS\<close> object: a property read of a key the object does not have yields
  \<open>undefined\<close>, modelled as \<open>None\<close>.
\<close>

definition BLOCKS :: "string \<rightharpoonup> int" where
  "BLOCKS = map_of
     [(''air'', 0), (''stone'', 1), (''cobblestone'', 2), (''dirt'', 3), (''grass'', 4),
      (''logs'', 5), (''leaves'', 6), (''planks'', 7), (''glass'', 8), (''bricks'', 9)]"

definition BLOCKS_air :: int where "BLOCKS_air = 0"
definition BLOCKS_stone :: int where "BLOCKS_stone = 1"
definition BLOCKS_cobblestone :: int where "BLOCKS_cobblestone = 2"
definition BLOCKS_dirt :: int where "BLOCKS_dirt = 3"
definition BLOCKS_grass :: int where "BLOCKS_grass = 4"
definition BLOCKS_logs :: int where "BLOCKS_logs = 5"
definition BLOCKS_leaves :: int where "BLOCKS_leaves = 6"
definition BLOCKS_planks :: int where "BLOCKS_planks = 7"
definition BLOCKS_glass :: int where "BLOCKS_glass = 8"
definition BLOCKS_bricks :: int where "BLOCKS_bricks = 9"

section \<open>Chunk store (js/game/world.js)\<close>

text \<open>
  A chunk object: its coordinate, its \<open>Uint8Array\<close> of blocks and its dirty flag. The
  cached mesh belongs to the renderer and is left out. The global \<open>chunks\<close> object is
  keyed by the string \<open>chunkX,chunkZ\<close>, which is the pair of integers.
\<close>

record chunk =
  chunk_x :: int
  chunk_z :: int
  blocks :: "8 word list"
  needsUpdate :: bool

type_synonym chunks = "(int \<times> int) \<rightharpoonup> chunk"

text \<open>
  Reading a typed array at an index outside it yields \<open>undefined\<close> (\<open>None\<close>);
  \<open>v || BLOCKS.air\<close> replaces the falsy values \<open>0\<close> and \<open>undefined\<close> by air.
\<close>

definition u8_read :: "8 word list \<Rightarrow> int \<Rightarrow> 8 word option" where
  "u8_read a i = (if 0 \<le> i \<and> i < int (length a) then Some (a ! nat i) else None)"

definition or_air :: "8 word option \<Rightarrow> int" where
  "or_air v = (case v of None \<Rightarrow> BLOCKS_air | Some w \<Rightarrow> if w = 0 then BLOCKS_air else uint w)"

text \<open>
  A write to a typed array converts the number modulo 256 and is ignored outside the
  array, as \<open>list_update\<close> is.
\<close>

definition u8_write :: "8 word list \<Rightarrow> int \<Rightarrow> int \<Rightarrow> 8 word list" where
  "u8_write a i v = (if 0 \<le> i then a[nat i := word_of_int v] else a)"

text \<open>
  On integers, \<open>Math.floor(x / CHUNK_SIZE)\<close> is \<open>x div CHUNK_SIZE\<close>, and the
  remainder \<open>%\<close> truncates towards zero (\<open>smod\<close>).
\<close>

definition block_index :: "int \<Rightarrow> int \<Rightarrow> int \<Rightarrow> int" where
  "block_index x y z = x + z * CHUNK_SIZE + y * CHUNK_SIZE * CHUNK_SIZE"

definition local_coord :: "int \<Rightarrow> int" where
  "local_coord x = ((x smod CHUNK_SIZE) + CHUNK_SIZE) smod CHUNK_SIZE"

definition getBlock :: "chunks \<Rightarrow> int \<Rightarrow> int \<Rightarrow> int \<Rightarrow> int" where
  "getBlock cs x y z =
     (if y < 0 \<or> y \<ge> WORLD_HEIGHT then BLOCKS_air
      else
        let chunkX = x div CHUNK_SIZE; chunkZ = z div CHUNK_SIZE in
        (case cs (chunkX, chunkZ) of
           None \<Rightarrow> BLOCKS_air
         | Some c \<Rightarrow>
             let localX = local_coord x; localZ = local_coord z;
                 index = block_index localX y localZ
             in or_air (u8_read (blocks c) index)))"

definition getBlockInChunk :: "chunk \<Rightarrow> int \<Rightarrow> int \<Rightarrow> int \<Rightarrow> int" where
  "getBlockInChunk c x y z =
     (if x < 0 \<or> x \<ge> CHUNK_SIZE \<or> y < 0 \<or> y \<ge> WORLD_HEIGHT \<or> z < 0 \<or> z \<ge> CHUNK_SIZE
      then BLOCKS_air
      else or_air (u8_read (blocks c) (block_index x y z)))"

section \<open>Noise (perlin2D)\<close>

text \<open>
  The seeded generator \<open>random\<close> of the noise closure. \<open>seed\<close> is a number that grows
  by \<open>0x6D2B79F5\<close> at each call; every use of it goes through a 32-bit conversion
  (\<open>^\<close>, \<open>>>>\<close>, \<open>|\<close>, \<open>Math.imul\<close>), and it stays far below \<open>2^53\<close> over the 255
  calls of the shuffle, so it is modelled as a 32-bit word. The result is the unsigned
  value of the last word divided by \<open>2^32\<close>.
\<close>

definition random :: "32 word \<Rightarrow> 32 word \<times> real" where
  "random seed =
     (let seed = seed + 0x6D2B79F5;
          t = seed;
          t = (t XOR drop_bit 15 t) * (t OR 1);
          t = t XOR (t + (t XOR drop_bit 7 t) * (t OR 61))
      in (seed, real (unat (t XOR drop_bit 14 t)) / 4294967296))"

text \<open>
  The shuffle \<open>for (let i = 255; i > 0; i--)\<close>, entered at \<open>i\<close>: the swap
  \<open>[p[i], p[j]] = [p[j], p[i]]\<close> with \<open>j = Math.floor(random() * (i + 1))\<close>.
\<close>

fun shuffle :: "nat \<Rightarrow> 32 word \<Rightarrow> 8 word list \<Rightarrow> 8 word list" where
  "shuffle 0 seed p = p"
| "shuffle (Suc n) seed p =
     (let i = Suc n;
          (seed, r) = random seed;
          j = nat \<lfloor>r * real (i + 1)\<rfloor>
      in shuffle n seed (p[i := p ! j, j := p ! i]))"

text \<open>
  The table \<open>p\<close>: 512 bytes, the first 256 set to \<open>0..255\<close> and shuffled, then copied
  to the second half.
\<close>

definition perm_table :: "32 word \<Rightarrow> 8 word list" where
  "perm_table seed =
     (let p = replicate 512 0;
          p = fold (\<lambda>i p. p[i := of_nat i]) [0..<256] p;
          p = shuffle 255 seed p
      in fold (\<lambda>i p. p[i + 256 := p ! i]) [0..<256] p)"

definition fade :: "real \<Rightarrow> real" where
  "fade t = t * t * t * (t * (t * 6 - 15) + 10)"

definition lerp :: "real \<Rightarrow> real \<Rightarrow> real \<Rightarrow> real" where
  "lerp t a b = a + t * (b - a)"

definition grad :: "int \<Rightarrow> real \<Rightarrow> real \<Rightarrow> real" where
  "grad hash x y =
     (let h = hash AND 7;
          u = (if h < 4 then x else y);
          v = (if h < 4 then y else x)
      in (if h AND 1 \<noteq> 0 then - u else u) + (if h AND 2 \<noteq> 0 then - 2 * v else 2 * v))"

text \<open>
  A read of the table as a number. The table has 512 entries and the indices used are
  at most 511 (\<open>perm_table_length\<close>, \<open>tab_range\<close>, \<open>and_255_range\<close>), so the
  \<open>undefined\<close> of a read outside it never arises; the model gives it the value 0.
\<close>

definition tab :: "8 word list \<Rightarrow> int \<Rightarrow> int" where
  "tab p i = (case u8_read p i of None \<Rightarrow> 0 | Some w \<Rightarrow> uint w)"

text \<open>
  The sample function returned by the closure. \<open>Math.floor(x) & 255\<close> is the bitwise
  and on the integer \<open>\<lfloor>x\<rfloor>\<close>.
\<close>

definition noise :: "8 word list \<Rightarrow> real \<Rightarrow> real \<Rightarrow> real" where
  "noise p x y =
     (let X = \<lfloor>x\<rfloor> AND 255;
          Y = \<lfloor>y\<rfloor> AND 255;
          x = x - of_int \<lfloor>x\<rfloor>;
          y = y - of_int \<lfloor>y\<rfloor>;
          u = fade x;
          v = fade y;
          A = tab p X + Y; AA = tab p A; AB = tab p (A + 1);
          B = tab p (X + 1) + Y; BA = tab p B; BB = tab p (B + 1)
      in lerp v (lerp u (grad (tab p AA) x y) (grad (tab p BA) (x - 1) y))
                (lerp u (grad (tab p AB) x (y - 1)) (grad (tab p BB) (x - 1) (y - 1))))"

definition perlin2D :: "32 word \<Rightarrow> real \<Rightarrow> real \<Rightarrow> real" where
  "perlin2D seed x y = noise (perm_table seed) x y"

section \<open>Terrain generation (generateChunk)\<close>

text \<open>
  \<open>Math.random\<close> is the one input of generation that is not an argument: the model
  threads the stream of its results. The state of a chunk under generation is its block
  array and the rest of that stream.
\<close>

type_synonym gen_state = "8 word list \<times> real stream"

definition Math_random :: "real stream \<Rightarrow> real \<times> real stream" where
  "Math_random rng = (shd rng, stl rng)"

text \<open>
  The bodies of the loops of the three tree generators. A trunk cell is written
  unconditionally; inside the chunk, an air cell becomes leaves with the given
  probability, and \<open>Math.random\<close> is called only when the cell is air.
\<close>

definition trunk_block :: "int \<Rightarrow> int \<Rightarrow> int \<Rightarrow> int \<Rightarrow> 8 word list \<Rightarrow> 8 word list" where
  "trunk_block x y z i b =
     (if y + i < WORLD_HEIGHT then u8_write b (block_index x (y + i) z) BLOCKS_logs else b)"

definition leaf :: "real \<Rightarrow> int \<Rightarrow> int \<Rightarrow> int \<Rightarrow> gen_state \<Rightarrow> gen_state" where
  "leaf prob leafX leafYPos leafZ s =
     (if leafX \<ge> 0 \<and> leafX < CHUNK_SIZE \<and> leafZ \<ge> 0 \<and> leafZ < CHUNK_SIZE
         \<and> leafYPos < WORLD_HEIGHT
      then
        let index = block_index leafX leafYPos leafZ in
        if u8_read (fst s) index = Some (word_of_int BLOCKS_air)
        then
          let (r, rng) = Math_random (snd s)
          in if r < prob then (u8_write (fst s) index BLOCKS_leaves, rng) else (fst s, rng)
        else s
      else s)"

definition oak_leaf :: "int \<Rightarrow> int \<Rightarrow> int \<Rightarrow> int \<times> int \<times> int \<Rightarrow> gen_state \<Rightarrow> gen_state" where
  "oak_leaf x leafY z d s =
     (case d of (dx, dz, dy) \<Rightarrow>
        if \<bar>dx\<bar> + \<bar>dz\<bar> + \<bar>dy\<bar> > 3 then s
        else leaf 0.8 (x + dx) (leafY + dy) (z + dz) s)"

definition tall_leaf :: "int \<Rightarrow> int \<Rightarrow> int \<Rightarrow> int \<times> int \<times> int \<Rightarrow> gen_state \<Rightarrow> gen_state" where
  "tall_leaf x leafY z d s =
     (case d of (dx, dz, dy) \<Rightarrow> leaf 0.9 (x + dx) (leafY + dy) (z + dz) s)"

definition large_trunk_block ::
  "int \<Rightarrow> int \<Rightarrow> int \<Rightarrow> int \<times> int \<times> int \<Rightarrow> 8 word list \<Rightarrow> 8 word list" where
  "large_trunk_block x y z d b =
     (case d of (dx, dz, i) \<Rightarrow>
        let trunkX = x + dx; trunkZ = z + dz
        in if trunkX < CHUNK_SIZE \<and> trunkZ < CHUNK_SIZE \<and> y + i < WORLD_HEIGHT
           then u8_write b (block_index trunkX (y + i) trunkZ) BLOCKS_logs
           else b)"

definition large_leaf :: "int \<Rightarrow> int \<Rightarrow> int \<Rightarrow> int \<times> int \<times> int \<Rightarrow> gen_state \<Rightarrow> gen_state" where
  "large_leaf x leafY z d s =
     (case d of (dx, dz, dy) \<Rightarrow>
        let distance = sqrt (of_int (dx * dx + dz * dz) + of_int (dy * dy) * 0.5)
        in if distance > 4 then s
           else leaf 0.7 (x + dx) (leafY + dy) (z + dz) s)"

text \<open>
  The iteration spaces of the loop nests, in the order the loops run through them:
  \<open>dx\<close> outermost, then \<open>dz\<close>, then \<open>dy\<close> (or the trunk height \<open>i\<close>).
\<close>

definition oak_offsets :: "(int \<times> int \<times> int) list" where
  "oak_offsets = [(dx, dz, dy). dx \<leftarrow> [- 2..2], dz \<leftarrow> [- 2..2], dy \<leftarrow> [0..2]]"

definition tall_offsets :: "(int \<times> int \<times> int) list" where
  "tall_offsets = [(dx, dz, dy). dx \<leftarrow> [- 1..1], dz \<leftarrow> [- 1..1], dy \<leftarrow> [0..3]]"

definition large_trunk_offsets :: "int \<Rightarrow> (int \<times> int \<times> int) list" where
  "large_trunk_offsets treeHeight =
     [(dx, dz, i). dx \<leftarrow> [0..1], dz \<leftarrow> [0..1], i \<leftarrow> [0..treeHeight - 1]]"

definition large_offsets :: "(int \<times> int \<times> int) list" where
  "large_offsets = [(dx, dz, dy). dx \<leftarrow> [- 3..4], dz \<leftarrow> [- 3..4], dy \<leftarrow> [0..4]]"

text \<open>
  The tree generators: the height from one call of \<open>Math.random\<close>, the trunk loop, and
  the leaf loops.
\<close>

definition generateOakTree :: "int \<Rightarrow> int \<Rightarrow> int \<Rightarrow> gen_state \<Rightarrow> gen_state" where
  "generateOakTree x y z s =
     (let (r, rng) = Math_random (snd s);
          treeHeight = 4 + \<lfloor>r * 3\<rfloor>;
          b = fold (trunk_block x y z) [0..treeHeight - 1] (fst s);
          leafY = y + treeHeight - 1
      in fold (oak_leaf x leafY z) oak_offsets (b, rng))"

definition generateTallTree :: "int \<Rightarrow> int \<Rightarrow> int \<Rightarrow> gen_state \<Rightarrow> gen_state" where
  "generateTallTree x y z s =
     (let (r, rng) = Math_random (snd s);
          treeHeight = 8 + \<lfloor>r * 4\<rfloor>;
          b = fold (trunk_block x y z) [0..treeHeight - 1] (fst s);
          leafY = y + treeHeight - 2
      in fold (tall_leaf x leafY z) tall_offsets (b, rng))"

definition generateLargeTree :: "int \<Rightarrow> int \<Rightarrow> int \<Rightarrow> gen_state \<Rightarrow> gen_state" where
  "generateLargeTree x y z s =
     (let (r, rng) = Math_random (snd s);
          treeHeight = 6 + \<lfloor>r * 3\<rfloor>;
          b = fold (large_trunk_block x y z) (large_trunk_offsets treeHeight) (fst s);
          leafY = y + treeHeight - 2
      in fold (large_leaf x leafY z) large_offsets (b, rng))"

definition generateTree :: "int \<Rightarrow> int \<Rightarrow> int \<Rightarrow> gen_state \<Rightarrow> gen_state" where
  "generateTree x y z s =
     (let (treeType, rng) = Math_random (snd s)
      in if treeType < 0.7 then generateOakTree x y z (fst s, rng)
         else if treeType < 0.9 then generateTallTree x y z (fst s, rng)
         else generateLargeTree x y z (fst s, rng))"

text \<open>
  The heights of the column at \<open>(worldX, worldZ)\<close>: \<open>mountainHeight\<close> and
  \<open>totalHeight\<close>.
\<close>

definition GROUND_LEVEL :: real where "GROUND_LEVEL = 32"

definition column_heights :: "32 word \<Rightarrow> int \<Rightarrow> int \<Rightarrow> real \<times> real" where
  "column_heights seed worldX worldZ =
     (let mountainFactor = perlin2D seed (of_int worldX * 0.003) (of_int worldZ * 0.003);
          mountainFactor = (mountainFactor - 0.1) * 1.5;
          mountainFactor = max 0 mountainFactor;
          baseHills = perlin2D seed (of_int worldX * 0.015) (of_int worldZ * 0.015) * 6;
          mountainDetail = perlin2D seed (of_int worldX * 0.03) (of_int worldZ * 0.03) * 20;
          mountainHeight = mountainFactor * mountainFactor * (25 + mountainDetail);
          totalHeight = GROUND_LEVEL + baseHills + mountainHeight
      in (mountainHeight, totalHeight))"

text \<open>The body of the loop over \<open>y\<close> for the column \<open>(x, z)\<close> of the chunk.\<close>

definition place_block :: "int \<Rightarrow> int \<Rightarrow> real \<Rightarrow> real \<Rightarrow> int \<Rightarrow> gen_state \<Rightarrow> gen_state" where
  "place_block x z mountainHeight totalHeight y s =
     (let index = block_index x y z;
          surfaceY = \<lfloor>totalHeight\<rfloor>
      in if y = surfaceY then
           (if mountainHeight < 5 then
              let s = (u8_write (fst s) index BLOCKS_grass, snd s)
              in if mountainHeight = 0 then
                   let (r, rng) = Math_random (snd s)
                   in if r < 0.008 then generateTree x (y + 1) z (fst s, rng) else (fst s, rng)
                 else s
            else
              let (r, rng) = Math_random (snd s)
              in (u8_write (fst s) index (if r < 0.7 then BLOCKS_stone else BLOCKS_cobblestone),
                  rng))
         else if y < surfaceY \<and> y > surfaceY - 4 then (u8_write (fst s) index BLOCKS_dirt, snd s)
         else if y < surfaceY - 3 then (u8_write (fst s) index BLOCKS_stone, snd s)
         else s)"

definition fill_column :: "32 word \<Rightarrow> int \<Rightarrow> int \<Rightarrow> int \<times> int \<Rightarrow> gen_state \<Rightarrow> gen_state" where
  "fill_column seed chunkX chunkZ xz s =
     (let x = fst xz; z = snd xz;
          worldX = chunkX * CHUNK_SIZE + x;
          worldZ = chunkZ * CHUNK_SIZE + z;
          (mountainHeight, totalHeight) = column_heights seed worldX worldZ
      in fold (place_block x z mountainHeight totalHeight) [0..WORLD_HEIGHT - 1] s)"

text \<open>The columns of a chunk in the order of the loops: \<open>x\<close> outside, \<open>z\<close> inside.\<close>

definition chunk_columns :: "(int \<times> int) list" where
  "chunk_columns = [(x, z). x \<leftarrow> [0..CHUNK_SIZE - 1], z \<leftarrow> [0..CHUNK_SIZE - 1]]"

definition generate_blocks :: "32 word \<Rightarrow> int \<Rightarrow> int \<Rightarrow> real stream \<Rightarrow> gen_state" where
  "generate_blocks seed chunkX chunkZ rng =
     fold (fill_column seed chunkX chunkZ) chunk_columns
       (replicate (nat (CHUNK_SIZE * WORLD_HEIGHT * CHUNK_SIZE)) 0, rng)"

text \<open>
  The world: the stored chunks and the rest of the \<open>Math.random\<close> stream. The noise
  seed is fixed when the module is loaded and is a parameter.
\<close>

type_synonym world = "chunks \<times> real stream"

definition generateChunk :: "32 word \<Rightarrow> world \<Rightarrow> int \<Rightarrow> int \<Rightarrow> world" where
  "generateChunk seed w chunkX chunkZ =
     (case fst w (chunkX, chunkZ) of
        Some c \<Rightarrow> w
      | None \<Rightarrow>
          let (b, rng) = generate_blocks seed chunkX chunkZ (snd w)
          in ((fst w)((chunkX, chunkZ) \<mapsto>
                \<lparr>chunk_x = chunkX, chunk_z = chunkZ, blocks = b, needsUpdate = True\<rparr>), rng))"

text \<open>\<open>if (chunks[key]) chunks[key].needsUpdate = true\<close> for a neighbour key.\<close>

definition mark_dirty :: "bool \<Rightarrow> int \<times> int \<Rightarrow> chunks \<Rightarrow> chunks" where
  "mark_dirty cond key cs =
     (if cond then (case cs key of None \<Rightarrow> cs | Some c \<Rightarrow> cs(key \<mapsto> c\<lparr>needsUpdate := True\<rparr>))
      else cs)"

definition setBlock :: "32 word \<Rightarrow> world \<Rightarrow> int \<Rightarrow> int \<Rightarrow> int \<Rightarrow> int \<Rightarrow> world" where
  "setBlock seed w x y z blockType =
     (if y < 0 \<or> y \<ge> WORLD_HEIGHT then w
      else
        let chunkX = x div CHUNK_SIZE; chunkZ = z div CHUNK_SIZE;
            w = (case fst w (chunkX, chunkZ) of
                   None \<Rightarrow> generateChunk seed w chunkX chunkZ
                 | Some c \<Rightarrow> w)
        in (case fst w (chunkX, chunkZ) of
              None \<Rightarrow> w
            | Some c \<Rightarrow>
                let localX = local_coord x; localZ = local_coord z;
                    index = block_index localX y localZ;
                    c = c\<lparr>blocks := u8_write (blocks c) index blockType, needsUpdate := True\<rparr>;
                    cs = (fst w)((chunkX, chunkZ) \<mapsto> c);
                    cs = mark_dirty (localX = 0) (chunkX - 1, chunkZ) cs;
                    cs = mark_dirty (localX = CHUNK_SIZE - 1) (chunkX + 1, chunkZ) cs;
                    cs = mark_dirty (localZ = 0) (chunkX, chunkZ - 1) cs;
                    cs = mark_dirty (localZ = CHUNK_SIZE - 1) (chunkX, chunkZ + 1) cs
                in (cs, snd w)))"

section \<open>Greedy meshing (greedyMeshChunk)\<close>

text \<open>
  A face of the mesh: four vertices in chunk-local coordinates, the normal and the block
  type. Vectors are the three-element arrays of the source, indexed by the axis.
\<close>

record face =
  vertices :: "int list list"
  normal :: "int list"
  blockType :: int

definition dims :: "int list" where
  "dims = [CHUNK_SIZE, WORLD_HEIGHT, CHUNK_SIZE]"

text \<open>
  The mask entry written for the position \<open>x\<close> of the sweep along \<open>axis\<close>: the block
  at \<open>x\<close> (none below the chunk) against the block at \<open>x + q\<close> (none above it).
\<close>

definition mask_cell :: "chunk \<Rightarrow> nat \<Rightarrow> int list \<Rightarrow> int" where
  "mask_cell c axis x =
     (let q = [0, 0, 0][axis := 1];
          blockA = (if x ! axis \<ge> 0 then getBlockInChunk c (x ! 0) (x ! 1) (x ! 2) else 0);
          blockB = (if x ! axis < dims ! axis - 1
                    then getBlockInChunk c (x ! 0 + q ! 0) (x ! 1 + q ! 1) (x ! 2 + q ! 2)
                    else 0)
      in if (blockA \<noteq> 0) = (blockB \<noteq> 0) then 0
         else if blockA \<noteq> 0 then blockA
         else - blockB)"

text \<open>
  The mask of one sweep position, filled by the loops over \<open>x[v]\<close> (outer) and \<open>x[u]\<close>
  (inner) with \<open>msk[n++]\<close>.
\<close>

definition build_mask :: "chunk \<Rightarrow> nat \<Rightarrow> int \<Rightarrow> int list" where
  "build_mask c axis d =
     (let u = (axis + 1) mod 3; v = (axis + 2) mod 3;
          x = [0, 0, 0][axis := d]
      in concat (map (\<lambda>xv. map (\<lambda>xu. mask_cell c axis (x[v := int xv, u := int xu]))
                               [0..<nat (dims ! u)])
                  [0..<nat (dims ! v)]))"

text \<open>
  \<open>let w = 1; while (i + w < dims[u] && mask[n + w] === currentMask) w++\<close>, entered
  with the current \<open>w\<close>. Every read of the msk in the scan is inside it.
\<close>

function width_loop :: "int list \<Rightarrow> nat \<Rightarrow> int \<Rightarrow> nat \<Rightarrow> nat \<Rightarrow> nat \<Rightarrow> nat" where
  "width_loop msk n currentMask i dimU w =
     (if i + w < dimU \<and> msk ! (n + w) = currentMask
      then width_loop msk n currentMask i dimU (w + 1)
      else w)"
  by pat_completeness auto
termination
  by (relation "measure (\<lambda>(msk, n, currentMask, i, dimU, w). dimU - (i + w))") auto

declare width_loop.simps [simp del]

text \<open>
  The loop over \<open>k\<close> that sets \<open>done\<close> when a cell of the next row differs, and the
  loop over \<open>h\<close> around it.
\<close>

definition row_differs :: "int list \<Rightarrow> nat \<Rightarrow> int \<Rightarrow> nat \<Rightarrow> nat \<Rightarrow> nat \<Rightarrow> bool" where
  "row_differs msk n currentMask dimU w h =
     list_ex (\<lambda>k. msk ! (n + k + h * dimU) \<noteq> currentMask) [0..<w]"

function height_loop ::
  "int list \<Rightarrow> nat \<Rightarrow> int \<Rightarrow> nat \<Rightarrow> nat \<Rightarrow> nat \<Rightarrow> nat \<Rightarrow> nat \<Rightarrow> nat" where
  "height_loop msk n currentMask j dimU dimV w h =
     (if j + h < dimV
      then (if row_differs msk n currentMask dimU w h then h
            else height_loop msk n currentMask j dimU dimV w (h + 1))
      else h)"
  by pat_completeness auto
termination
  by (relation "measure (\<lambda>(msk, n, currentMask, j, dimU, dimV, w, h). dimV - (j + h))") auto

declare height_loop.simps [simp del]

text \<open>The two loops that zero the cells of the rectangle.\<close>

definition clear_rect :: "int list \<Rightarrow> nat \<Rightarrow> nat \<Rightarrow> nat \<Rightarrow> nat \<Rightarrow> int list" where
  "clear_rect msk n dimU w h =
     fold (\<lambda>(l, k) m. m[n + k + l * dimU := 0]) [(l, k). l \<leftarrow> [0..<h], k \<leftarrow> [0..<w]] msk"

text \<open>
  The face pushed for the rectangle of width \<open>w\<close> and height \<open>h\<close> at \<open>x\<close>, where
  \<open>x[u] = i\<close>, \<open>x[v] = j\<close> and \<open>x[axis]\<close> is the plane.
\<close>

definition quad :: "nat \<Rightarrow> int list \<Rightarrow> nat \<Rightarrow> nat \<Rightarrow> int \<Rightarrow> face" where
  "quad axis x w h currentMask =
     (let u = (axis + 1) mod 3; v = (axis + 2) mod 3;
          du = [0, 0, 0][u := int w]; dv = [0, 0, 0][v := int h];
          normal = [0, 0, 0][axis := (if currentMask > 0 then 1 else - 1)];
          v1 = [x ! 0, x ! 1, x ! 2];
          v2 = [x ! 0 + du ! 0, x ! 1 + du ! 1, x ! 2 + du ! 2];
          v3 = [x ! 0 + du ! 0 + dv ! 0, x ! 1 + du ! 1 + dv ! 1, x ! 2 + du ! 2 + dv ! 2];
          v4 = [x ! 0 + dv ! 0, x ! 1 + dv ! 1, x ! 2 + dv ! 2]
      in \<lparr>vertices = (if currentMask > 0 then [v1, v2, v3, v4] else [v1, v4, v3, v2]),
          normal = normal, blockType = \<bar>currentMask\<bar>\<rparr>)"

lemma width_loop_ge: "w \<le> width_loop msk n c i dimU w"
proof (induction msk n c i dimU w rule: width_loop.induct)
  case (1 msk n c i dimU w)
  show ?case
  proof (cases "i + w < dimU \<and> msk ! (n + w) = c")
    case True
    with "1.IH" have "w + 1 \<le> width_loop msk n c i dimU (w + 1)" by simp
    with True show ?thesis by (subst width_loop.simps) simp
  next
    case False
    then show ?thesis by (subst width_loop.simps) auto
  qed
qed

text \<open>
  The loop \<open>for (let i = 0; i < dims[u];)\<close> of the row \<open>j\<close>, entered at \<open>i\<close> with the
  running index \<open>n\<close>: the faces pushed, and the index and the msk it leaves.
\<close>

function scan_row ::
  "nat \<Rightarrow> int list \<Rightarrow> nat \<Rightarrow> nat \<Rightarrow> nat \<Rightarrow> nat \<Rightarrow> nat \<Rightarrow> int list
     \<Rightarrow> face list \<times> nat \<times> int list" where
  "scan_row axis x dimU dimV j i n msk =
     (if i < dimU then
        (if msk ! n \<noteq> 0 then
           let currentMask = msk ! n;
               w = width_loop msk n currentMask i dimU 1;
               h = height_loop msk n currentMask j dimU dimV w 1;
               u = (axis + 1) mod 3; v = (axis + 2) mod 3;
               f = quad axis (x[u := int i, v := int j]) w h currentMask;
               msk = clear_rect msk n dimU w h;
               (fs, n, msk) = scan_row axis x dimU dimV j (i + w) (n + w) msk
           in (f # fs, n, msk)
         else scan_row axis x dimU dimV j (i + 1) (n + 1) msk)
      else ([], n, msk))"
  by pat_completeness auto
termination
proof (relation "measure (\<lambda>(axis, x, dimU, dimV, j, i, n, msk). dimU - i)", goal_cases)
  case 1
  show ?case by simp
next
  case (2 axis x dimU dimV j i n msk xa xb xc xd xe xf xg)
  have "1 \<le> width_loop msk n (msk ! n) i dimU 1"
    by (rule width_loop_ge)
  with 2 show ?case by simp
next
  case 3
  then show ?case by simp
qed

declare scan_row.simps [simp del]

text \<open>The loop over the rows \<open>j\<close>, which starts each row at \<open>i = 0\<close> and keeps \<open>n\<close>.\<close>

definition scan_plane ::
  "nat \<Rightarrow> int list \<Rightarrow> nat \<Rightarrow> nat \<Rightarrow> int list \<Rightarrow> face list \<times> nat \<times> int list" where
  "scan_plane axis x dimU dimV msk =
     fold (\<lambda>j (faces, n, msk).
             let (fs, n, msk) = scan_row axis x dimU dimV j 0 n msk
             in (faces @ fs, n, msk))
       [0..<dimV] ([], 0, msk)"

text \<open>
  One sweep position \<open>x[axis] = d\<close>: the msk is built, \<open>x[axis]\<close> is incremented, and
  the plane is scanned.
\<close>

definition slice_faces :: "chunk \<Rightarrow> nat \<Rightarrow> int \<Rightarrow> face list" where
  "slice_faces c axis d =
     (let u = (axis + 1) mod 3; v = (axis + 2) mod 3;
          msk = build_mask c axis d;
          x = [0, 0, 0][axis := d + 1]
      in fst (scan_plane axis x (nat (dims ! u)) (nat (dims ! v)) msk))"

definition greedyMeshChunk :: "chunk \<Rightarrow> face list" where
  "greedyMeshChunk c =
     concat (map (\<lambda>axis. concat (map (slice_faces c axis) [- 1..dims ! axis - 1])) [0, 1, 2])"

section \<open>Double arithmetic\<close>

text \<open>
  JavaScript numbers are IEEE 754 binary64 values. A finite double is modelled by the
  real number it denotes, and an operation of the language by the exact operation
  followed by rounding to the nearest double, ties to the even significand:
  \<open>double x\<close> is \<open>x\<close> rounded to a multiple of \<open>2 ^ (e - 52)\<close>, where
  \<open>2 ^ e \<le> \<bar>x\<bar> < 2 ^ (e + 1)\<close> and \<open>e\<close> is not taken below \<open>-1022\<close>, where the
  subnormal doubles begin. A decimal literal of the source denotes the double nearest
  to it. Infinities, \<open>NaN\<close> and the sign of zero are not represented: the model
  covers results of magnitude below \<open>2 ^ 1024\<close>.
\<close>

definition pow2 :: "int \<Rightarrow> real" where
  "pow2 e = (if 0 \<le> e then 2 ^ nat e else 1 / 2 ^ nat (- e))"

text \<open>Rounding to the nearest integer, a tie to the even one.\<close>

definition rne :: "real \<Rightarrow> int" where
  "rne x = (let n = \<lfloor>x\<rfloor>; r = x - of_int n
            in if r < 1 / 2 then n else if 1 / 2 < r then n + 1
               else if even n then n else n + 1)"

text \<open>
  The binary exponent \<open>e\<close> of a number other than zero, computed from the number of
  bits of \<open>\<lfloor>\<bar>x\<bar>\<rfloor>\<close>, or of \<open>\<lfloor>1 / \<bar>x\<bar>\<rfloor>\<close> when \<open>\<bar>x\<bar> < 1\<close>.
\<close>

definition exponent :: "real \<Rightarrow> int" where
  "exponent x =
     (if 1 \<le> \<bar>x\<bar> then bitlen \<lfloor>\<bar>x\<bar>\<rfloor> - 1
      else let b = bitlen \<lfloor>1 / \<bar>x\<bar>\<rfloor> in if pow2 (1 - b) \<le> \<bar>x\<bar> then 1 - b else - b)"

definition double :: "real \<Rightarrow> real" where
  "double x = (let q = pow2 (max (exponent x) (- 1022) - 52) in of_int (rne (x / q)) * q)"

definition fadd :: "real \<Rightarrow> real \<Rightarrow> real" where "fadd x y = double (x + y)"
definition fsub :: "real \<Rightarrow> real \<Rightarrow> real" where "fsub x y = double (x - y)"
definition fmul :: "real \<Rightarrow> real \<Rightarrow> real" where "fmul x y = double (x * y)"
definition fdiv :: "real \<Rightarrow> real \<Rightarrow> real" where "fdiv x y = double (x / y)"

section \<open>Player movement (js/game/player.js)\<close>

text \<open>
  The functions \<open>accelerate\<close> and \<open>applyFriction\<close> are modelled over the real
  numbers: they keep the operations and comparisons of the code and leave the rounding
  of each operation out. The collision passes and the voxel pick floor their
  coordinates, so that the last bit of a double decides which cell is probed: they
  are modelled with the rounded operations \<open>add64\<close>, \<open>sub64\<close> and
  \<open>multiplyScalar64\<close> on vectors.
\<close>

record vec3 =
  vx :: real
  vy :: real
  vz :: real

definition Vector3 :: "real \<Rightarrow> real \<Rightarrow> real \<Rightarrow> vec3" where
  "Vector3 a b c = \<lparr>vx = a, vy = b, vz = c\<rparr>"

definition v_add :: "vec3 \<Rightarrow> vec3 \<Rightarrow> vec3" where
  "v_add a b = \<lparr>vx = vx a + vx b, vy = vy a + vy b, vz = vz a + vz b\<rparr>"

definition v_sub :: "vec3 \<Rightarrow> vec3 \<Rightarrow> vec3" where
  "v_sub a b = \<lparr>vx = vx a - vx b, vy = vy a - vy b, vz = vz a - vz b\<rparr>"

definition multiplyScalar :: "vec3 \<Rightarrow> real \<Rightarrow> vec3" where
  "multiplyScalar a s = \<lparr>vx = vx a * s, vy = vy a * s, vz = vz a * s\<rparr>"

definition add64 :: "vec3 \<Rightarrow> vec3 \<Rightarrow> vec3" where
  "add64 a b = \<lparr>vx = fadd (vx a) (vx b), vy = fadd (vy a) (vy b), vz = fadd (vz a) (vz b)\<rparr>"

definition sub64 :: "vec3 \<Rightarrow> vec3 \<Rightarrow> vec3" where
  "sub64 a b = \<lparr>vx = fsub (vx a) (vx b), vy = fsub (vy a) (vy b), vz = fsub (vz a) (vz b)\<rparr>"

definition multiplyScalar64 :: "vec3 \<Rightarrow> real \<Rightarrow> vec3" where
  "multiplyScalar64 a s = \<lparr>vx = fmul (vx a) s, vy = fmul (vy a) s, vz = fmul (vz a) s\<rparr>"

definition dot :: "vec3 \<Rightarrow> vec3 \<Rightarrow> real" where
  "dot a b = vx a * vx b + vy a * vy b + vz a * vz b"

definition v_length :: "vec3 \<Rightarrow> real" where
  "v_length a = sqrt (vx a * vx a + vy a * vy a + vz a * vz a)"

definition GRAVITY :: real where "GRAVITY = 0.01"
definition MAX_SPEED_GROUND :: real where "MAX_SPEED_GROUND = 0.3"
definition MAX_SPEED_AIR :: real where "MAX_SPEED_AIR = 0.02"
definition ACCEL_GROUND :: real where "ACCEL_GROUND = 0.2"
definition ACCEL_AIR :: real where "ACCEL_AIR = 1.3"
definition FRICTION :: real where "FRICTION = 0.2"
definition JUMP_IMPULSE :: real where "JUMP_IMPULSE = 0.2"

text \<open>The player object; \<open>width\<close> and \<open>height\<close> are never assigned after creation.\<close>

record player =
  position :: vec3
  velocity :: vec3
  onGround :: bool

definition player_width :: real where "player_width = double 0.6"
definition player_height :: real where "player_height = double 1.8"

definition accelerate :: "vec3 \<Rightarrow> real \<Rightarrow> real \<Rightarrow> player \<Rightarrow> player" where
  "accelerate wishDir wishSpeed accel p =
     (let currentSpeed = dot (velocity p) wishDir;
          addSpeed = wishSpeed - currentSpeed
      in if addSpeed \<le> 0 then p
         else
           let accelSpeed = accel * wishSpeed;
               accelSpeed = (if accelSpeed > addSpeed then addSpeed else accelSpeed)
           in p\<lparr>velocity := v_add (velocity p) (multiplyScalar wishDir accelSpeed)\<rparr>)"

definition applyFriction :: "player \<Rightarrow> player" where
  "applyFriction p =
     (let speed = v_length (velocity p) in
      if speed < 0.001 then p\<lparr>velocity := (velocity p)\<lparr>vx := 0, vz := 0\<rparr>\<rparr>
      else
        let control = (if speed < FRICTION then FRICTION else speed);
            drop = control * FRICTION;
            newSpeed = max 0 (speed - drop)
        in if newSpeed \<noteq> speed
           then let scale = newSpeed / speed
                in p\<lparr>velocity := (velocity p)\<lparr>vx := vx (velocity p) * scale,
                                                vz := vz (velocity p) * scale\<rparr>\<rparr>
           else p)"

text \<open>
  \<open>Box3.setFromCenterAndSize\<close>: with \<open>halfSize = size * 0.5\<close>, the box from
  \<open>center - halfSize\<close> to \<open>center + halfSize\<close>, each operation rounded.
\<close>

record box3 =
  box_min :: vec3
  box_max :: vec3

definition setFromCenterAndSize :: "vec3 \<Rightarrow> vec3 \<Rightarrow> box3" where
  "setFromCenterAndSize center sz =
     (let halfSize = multiplyScalar64 sz 0.5
      in \<lparr>box_min = sub64 center halfSize, box_max = add64 center halfSize\<rparr>)"

text \<open>
  The floor test of the Y pass, \<open>block !== BLOCKS.air && block !== BLOCKS.water\<close>:
  a strict comparison of the number \<open>block\<close> with the value of a property read.
\<close>

definition floor_hit :: "int \<Rightarrow> bool" where
  "floor_hit block = (Some block \<noteq> BLOCKS ''air'' \<and> Some block \<noteq> BLOCKS ''water'')"

text \<open>
  The two probe loops of the Y pass, \<open>for (z = startZ; z <= endZ; z++)\<close> inside
  \<open>for (x = startX; x <= endX; x++)\<close>; both stop at the first hit, and the result
  says whether there was one.
\<close>

function probe_z :: "chunks \<Rightarrow> int \<Rightarrow> int \<Rightarrow> int \<Rightarrow> int \<Rightarrow> bool" where
  "probe_z cs x feetY z endZ =
     (if z \<le> endZ
      then (if floor_hit (getBlock cs x feetY z) then True else probe_z cs x feetY (z + 1) endZ)
      else False)"
  by pat_completeness auto
termination
  by (relation "measure (\<lambda>(cs, x, feetY, z, endZ). nat (endZ + 1 - z))") auto

declare probe_z.simps [simp del]

function probe_x :: "chunks \<Rightarrow> int \<Rightarrow> int \<Rightarrow> int \<Rightarrow> int \<Rightarrow> int \<Rightarrow> bool" where
  "probe_x cs feetY x endX startZ endZ =
     (if x \<le> endX
      then (if probe_z cs x feetY startZ endZ then True
            else probe_x cs feetY (x + 1) endX startZ endZ)
      else False)"
  by pat_completeness auto
termination
  by (relation "measure (\<lambda>(cs, feetY, x, endX, startZ, endZ). nat (endX + 1 - x))") auto

declare probe_x.simps [simp del]

text \<open>
  The state of the collision code: the player and the tentative \<open>newPosition\<close>.
  The cell coordinates are integers; \<open>feetY + 1\<close> is an addition of doubles.
\<close>

definition collideY :: "chunks \<Rightarrow> player \<times> vec3 \<Rightarrow> player \<times> vec3" where
  "collideY cs s =
     (let p = (fst s)\<lparr>onGround := False\<rparr>; newPosition = snd s;
          (p, newPosition) =
            (if vy (velocity p) \<le> 0 then
               let playerBox = setFromCenterAndSize
                     (Vector3 (vx (position p)) (fadd (vy newPosition) (fdiv player_height 2))
                        (vz (position p)))
                     (Vector3 player_width player_height player_width);
                   feetY = \<lfloor>vy (box_min playerBox)\<rfloor>;
                   startX = \<lfloor>vx (box_min playerBox)\<rfloor>;
                   endX = \<lfloor>vx (box_max playerBox)\<rfloor>;
                   startZ = \<lfloor>vz (box_min playerBox)\<rfloor>;
                   endZ = \<lfloor>vz (box_max playerBox)\<rfloor>
               in if probe_x cs feetY startX endX startZ endZ
                  then (p\<lparr>velocity := (velocity p)\<lparr>vy := 0\<rparr>, onGround := True\<rparr>,
                        newPosition\<lparr>vy := fadd (of_int feetY) 1\<rparr>)
                  else (p, newPosition)
             else (p, newPosition))
      in (p\<lparr>position := (position p)\<lparr>vy := vy newPosition\<rparr>\<rparr>, newPosition))"

text \<open>
  The box of the Y pass, as \<open>collideY\<close> builds it from the position and the tentative
  position.
\<close>

definition feet_box :: "vec3 \<Rightarrow> vec3 \<Rightarrow> box3" where
  "feet_box pos newPosition =
     setFromCenterAndSize
       (Vector3 (vx pos) (fadd (vy newPosition) (fdiv player_height 2)) (vz pos))
       (Vector3 player_width player_height player_width)"

text \<open>The probe loop of the X and Z passes over the rows \<open>startY..endY\<close>.\<close>

function probe_y :: "(int \<Rightarrow> int) \<Rightarrow> int \<Rightarrow> int \<Rightarrow> bool" where
  "probe_y blockAt y endY =
     (if y \<le> endY
      then (if blockAt y \<noteq> BLOCKS_air then True else probe_y blockAt (y + 1) endY)
      else False)"
  by pat_completeness auto
termination
  by (relation "measure (\<lambda>(blockAt, y, endY). nat (endY + 1 - y))") auto

declare probe_y.simps [simp del]

definition collideX :: "chunks \<Rightarrow> player \<times> vec3 \<Rightarrow> player \<times> vec3" where
  "collideX cs s =
     (let p = fst s; newPosition = snd s;
          (p, newPosition) =
            (if vx (velocity p) \<noteq> 0 then
               let playerBox = setFromCenterAndSize
                     (Vector3 (vx newPosition) (fadd (vy (position p)) (fdiv player_height 2))
                        (vz (position p)))
                     (Vector3 player_width player_height player_width);
                   checkX = (if vx (velocity p) > 0 then \<lfloor>vx (box_max playerBox)\<rfloor>
                             else \<lfloor>vx (box_min playerBox)\<rfloor>);
                   startY = \<lfloor>vy (box_min playerBox)\<rfloor>;
                   endY = \<lfloor>vy (box_max playerBox)\<rfloor>
               in if probe_y (\<lambda>y. getBlock cs checkX y \<lfloor>vz (position p)\<rfloor>) startY endY
                  then (p\<lparr>velocity := (velocity p)\<lparr>vx := 0\<rparr>\<rparr>,
                        newPosition\<lparr>vx := vx (position p)\<rparr>)
                  else (p, newPosition)
             else (p, newPosition))
      in (p\<lparr>position := (position p)\<lparr>vx := vx newPosition\<rparr>\<rparr>, newPosition))"

definition collideZ :: "chunks \<Rightarrow> player \<times> vec3 \<Rightarrow> player \<times> vec3" where
  "collideZ cs s =
     (let p = fst s; newPosition = snd s;
          (p, newPosition) =
            (if vz (velocity p) \<noteq> 0 then
               let playerBox = setFromCenterAndSize
                     (Vector3 (vx (position p)) (fadd (vy (position p)) (fdiv player_height 2))
                        (vz newPosition))
                     (Vector3 player_width player_height player_width);
                   checkZ = (if vz (velocity p) > 0 then \<lfloor>vz (box_max playerBox)\<rfloor>
                             else \<lfloor>vz (box_min playerBox)\<rfloor>);
                   startY = \<lfloor>vy (box_min playerBox)\<rfloor>;
                   endY = \<lfloor>vy (box_max playerBox)\<rfloor>
               in if probe_y (\<lambda>y. getBlock cs \<lfloor>vx (position p)\<rfloor> y checkZ) startY endY
                  then (p\<lparr>velocity := (velocity p)\<lparr>vz := 0\<rparr>\<rparr>,
                        newPosition\<lparr>vz := vz (position p)\<rparr>)
                  else (p, newPosition)
             else (p, newPosition))
      in (p\<lparr>position := (position p)\<lparr>vz := vz newPosition\<rparr>\<rparr>, newPosition))"

text \<open>
  The movement half of a non-flying tick: friction, acceleration and the jump on the
  ground, air acceleration otherwise. \<open>wishDir\<close> is what \<open>getWishDirection\<close> returned
  and \<open>jump\<close> is \<open>keys['Space']\<close>.
\<close>

definition groundMove :: "vec3 \<Rightarrow> player \<Rightarrow> player" where
  "groundMove wishDir p = accelerate wishDir MAX_SPEED_GROUND ACCEL_GROUND (applyFriction p)"

definition movePlayer :: "vec3 \<Rightarrow> bool \<Rightarrow> player \<Rightarrow> player" where
  "movePlayer wishDir jump p =
     (if onGround p then
        let p = groundMove wishDir p
        in if jump then p\<lparr>velocity := (velocity p)\<lparr>vy := JUMP_IMPULSE\<rparr>, onGround := False\<rparr>
           else p
      else accelerate wishDir MAX_SPEED_AIR ACCEL_AIR p)"

definition applyGravity :: "player \<Rightarrow> player" where
  "applyGravity p =
     p\<lparr>velocity := (velocity p)\<lparr>vy := fsub (vy (velocity p)) (double GRAVITY)\<rparr>\<rparr>"

text \<open>The non-flying branch of \<open>updatePlayer\<close>; the camera update is left out.\<close>

definition updatePlayer :: "chunks \<Rightarrow> vec3 \<Rightarrow> bool \<Rightarrow> player \<Rightarrow> player" where
  "updatePlayer cs wishDir jump p =
     (let p = applyGravity (movePlayer wishDir jump p);
          newPosition = add64 (position p) (velocity p)
      in fst (collideZ cs (collideX cs (collideY cs (p, newPosition)))))"

section \<open>Voxel picking (getVoxelIntersection)\<close>

text \<open>
  \<open>raycaster.ray.at(t, target)\<close> is \<open>origin + direction * t\<close>, the product and the
  sum rounded. The result object holds the floored sample point and the normal, both
  vectors of integers.
\<close>

definition ray_at :: "vec3 \<Rightarrow> vec3 \<Rightarrow> real \<Rightarrow> vec3" where
  "ray_at origin direction t = add64 origin (multiplyScalar64 direction t)"

definition v_floor :: "vec3 \<Rightarrow> int \<times> int \<times> int" where
  "v_floor a = (\<lfloor>vx a\<rfloor>, \<lfloor>vy a\<rfloor>, \<lfloor>vz a\<rfloor>)"

record intersection =
  hit_position :: "int \<times> int \<times> int"
  hit_normal :: "int \<times> int \<times> int"

definition heuristic_normal :: "vec3 \<Rightarrow> int \<times> int \<times> int" where
  "heuristic_normal diff =
     (if \<bar>vx diff\<bar> > \<bar>vy diff\<bar> \<and> \<bar>vx diff\<bar> > \<bar>vz diff\<bar>
      then ((if vx diff > 0 then - 1 else 1), 0, 0)
      else if \<bar>vy diff\<bar> > \<bar>vz diff\<bar>
      then (0, (if vy diff > 0 then - 1 else 1), 0)
      else (0, 0, (if vz diff > 0 then - 1 else 1)))"

text \<open>
  The loop \<open>for (let t = 0; t < 10; t += 0.1)\<close>, entered at \<open>t\<close>. Entered at an
  arbitrary \<open>t\<close> the loop need not end (far below zero \<open>t + 0.1\<close> rounds back to
  \<open>t\<close>), so the result is an option: \<open>Some r\<close> when the loop returns \<open>r\<close>, where
  \<open>r\<close> is \<open>None\<close> for \<open>null\<close> and otherwise the object returned.
\<close>

partial_function (option) march ::
  "chunks \<Rightarrow> vec3 \<Rightarrow> vec3 \<Rightarrow> real \<Rightarrow> intersection option option" where
  "march cs origin direction t =
     (if t < 10 then
        let point = ray_at origin direction t;
            pos = v_floor point
        in if getBlock cs (fst pos) (fst (snd pos)) (snd (snd pos)) \<noteq> BLOCKS_air
           then
             let prevPoint = ray_at origin direction (fsub t (double 0.1));
                 diff = multiplyScalar64 (sub64 point prevPoint) 10
             in Some (Some \<lparr>hit_position = pos, hit_normal = heuristic_normal diff\<rparr>)
           else march cs origin direction (fadd t (double 0.1))
      else Some None)"

definition getVoxelIntersection :: "chunks \<Rightarrow> vec3 \<Rightarrow> vec3 \<Rightarrow> intersection option option" where
  "getVoxelIntersection cs origin direction = march cs origin direction 0"

text \<open>
  The samples the claim about picking speaks of. The parameter of sample \<open>k\<close> is the
  value of \<open>t\<close> after \<open>k\<close> rounded additions of \<open>0.1\<close>; the sample point is the ray
  at that parameter, it is solid when the block at the floored point is not air, and
  \<open>sample_diff\<close> is the difference to the point one step back, scaled by \<open>10\<close>.
  \<open>ticks n t\<close> lists \<open>n\<close> successive values of the loop variable from \<open>t\<close> on.
\<close>

primrec sample_t :: "nat \<Rightarrow> real" where
  "sample_t 0 = 0"
| "sample_t (Suc k) = fadd (sample_t k) (double 0.1)"

definition sample_point :: "vec3 \<Rightarrow> vec3 \<Rightarrow> nat \<Rightarrow> vec3" where
  "sample_point origin direction k = ray_at origin direction (sample_t k)"

definition sample_solid :: "chunks \<Rightarrow> vec3 \<Rightarrow> vec3 \<Rightarrow> nat \<Rightarrow> bool" where
  "sample_solid cs origin direction k =
     (case v_floor (sample_point origin direction k) of
        (x, y, z) \<Rightarrow> getBlock cs x y z \<noteq> BLOCKS_air)"

definition sample_diff :: "vec3 \<Rightarrow> vec3 \<Rightarrow> nat \<Rightarrow> vec3" where
  "sample_diff origin direction k =
     multiplyScalar64
       (sub64 (sample_point origin direction k)
          (ray_at origin direction (fsub (sample_t k) (double 0.1)))) 10"

fun ticks :: "nat \<Rightarrow> real \<Rightarrow> real list" where
  "ticks 0 t = []"
| "ticks (Suc n) t = t # ticks n (fadd t (double 0.1))"


text \<open>
  One-block stores used as concrete inputs: stone at the cell \<open>(0, 9, 0)\<close>, at the
  cell \<open>(0, 0, 0)\<close> and at the cell \<open>(10, 0, 0)\<close>.
\<close>

definition floor_example :: chunks where
  "floor_example =
     [(0, 0) \<mapsto> \<lparr>chunk_x = 0, chunk_z = 0,
                   blocks = (replicate 16384 0)[2304 := 1], needsUpdate = True\<rparr>]"

definition ground_example :: chunks where
  "ground_example =
     [(0, 0) \<mapsto> \<lparr>chunk_x = 0, chunk_z = 0,
                   blocks = (replicate 16384 0)[0 := 1], needsUpdate = True\<rparr>]"

definition far_example :: chunks where
  "far_example =
     [(0, 0) \<mapsto> \<lparr>chunk_x = 0, chunk_z = 0,
                   blocks = (replicate 16384 0)[10 := 1], needsUpdate = True\<rparr>]"

text \<open>
  The values that \<open>t\<close> takes in the picking loop, and the first value that fails the
  loop test: the \<open>k\<close>-th is the result of \<open>k\<close> additions of the double \<open>0.1\<close>.
\<close>

definition tick_values :: "real list" where
  "tick_values =
     [0, 3602879701896397 / 36028797018963968, 3602879701896397 / 18014398509481984,
      1351079888211149 / 4503599627370496, 3602879701896397 / 9007199254740992, 1 / 2,
      5404319552844595 / 9007199254740992, 3152519739159347 / 4503599627370496,
      7205759403792793 / 9007199254740992, 2026619832316723 / 2251799813685248,
      9007199254740991 / 9007199254740992, 4953959590107545 / 4503599627370496,
      5404319552844595 / 4503599627370496, 5854679515581645 / 4503599627370496,
      6305039478318695 / 4503599627370496, 6755399441055745 / 4503599627370496,
      7205759403792795 / 4503599627370496, 7656119366529845 / 4503599627370496,
      8106479329266895 / 4503599627370496, 8556839292003945 / 4503599627370496,
      4503599627370497 / 2251799813685248, 2364389804369511 / 1125899906842624,
      4953959590107547 / 2251799813685248, 647392446434509 / 281474976710656,
      5404319552844597 / 2251799813685248, 2814749767106561 / 1125899906842624,
      5854679515581647 / 2251799813685248, 1519964874237543 / 562949953421312,
      6305039478318697 / 2251799813685248, 3265109729843611 / 1125899906842624,
      6755399441055747 / 2251799813685248, 436286213901517 / 140737488355328,
      7205759403792797 / 2251799813685248, 3715469692580661 / 1125899906842624,
      7656119366529847 / 2251799813685248, 1970324836974593 / 562949953421312,
      8106479329266897 / 2251799813685248, 4165829655317711 / 1125899906842624,
      8556839292003947 / 2251799813685248, 1097752409171559 / 281474976710656,
      2251799813685249 / 562949953421312, 577023702256845 / 140737488355328,
      2364389804369511 / 562949953421312, 1210342399855821 / 281474976710656,
      2476979795053773 / 562949953421312, 9 / 2, 2589569785738035 / 562949953421312,
      1322932390540083 / 281474976710656, 2702159776422297 / 562949953421312,
      689613692941107 / 140737488355328, 2814749767106559 / 562949953421312,
      1435522381224345 / 281474976710656, 2927339757790821 / 562949953421312,
      372954344141619 / 70368744177664, 3039929748475083 / 562949953421312, 1548112371908607
      / 281474976710656, 3152519739159345 / 562949953421312, 802203683625369 /
      140737488355328, 3265109729843607 / 562949953421312, 1660702362592869 /
      281474976710656, 3377699720527869 / 562949953421312, 214624669741875 / 35184372088832,
      3490289711212131 / 562949953421312, 1773292353277131 / 281474976710656,
      3602879701896393 / 562949953421312, 914793674309631 / 140737488355328,
      3715469692580655 / 562949953421312, 1885882343961393 / 281474976710656,
      3828059683264917 / 562949953421312, 485544334825881 / 70368744177664, 3940649673949179
      / 562949953421312, 1998472334645655 / 281474976710656, 4053239664633441 /
      562949953421312, 1027383664993893 / 140737488355328, 4165829655317703 /
      562949953421312, 2111062325329917 / 281474976710656, 4278419646001965 /
      562949953421312, 135459832542003 / 17592186044416, 4391009636686227 / 562949953421312,
      2223652316014179 / 281474976710656, 4503599627370489 / 562949953421312,
      1139973655678155 / 140737488355328, 4616189618054751 / 562949953421312,
      2336242306698441 / 281474976710656, 4728779608739013 / 562949953421312,
      598134325510143 / 70368744177664, 4841369599423275 / 562949953421312, 2448832297382703
      / 281474976710656, 4953959590107537 / 562949953421312, 1252563646362417 /
      140737488355328, 5066549580791799 / 562949953421312, 2561422288066965 /
      281474976710656, 5179139571476061 / 562949953421312, 327214660426137 / 35184372088832,
      5291729562160323 / 562949953421312, 2674012278751227 / 281474976710656,
      5404319552844585 / 562949953421312, 1365153637046679 / 140737488355328,
      5516909543528847 / 562949953421312, 2786602269435489 / 281474976710656,
      5629499534213109 / 562949953421312, 710724316194405 / 70368744177664]"

text \<open>
  For the mesher: the mask indices of the rectangle of width \<open>w\<close> and height \<open>h\<close> that
  starts at index \<open>n\<close>, and a chunk of stone as a concrete input.
\<close>

definition rect_indices :: "nat \<Rightarrow> nat \<Rightarrow> nat \<Rightarrow> nat \<Rightarrow> nat set" where
  "rect_indices n dimU w h = {n + k + l * dimU | k l. k < w \<and> l < h}"


definition stone_chunk :: chunk where
  "stone_chunk = \<lparr>chunk_x = 0, chunk_z = 0, blocks = replicate 16384 1, needsUpdate = True\<rparr>"

text \<open>
  The unit faces of a mesh. A unit face is the unit square of a plane across an axis:
  the axis, the corner of the square with the least coordinates, the sign of the normal
  and the block type. The rectangle of a face spans from its first vertex to its third
  (the opposite corners in both windings), and rasterizing it lists its unit squares.
\<close>

type_synonym unit_face = "nat \<times> int list \<times> int \<times> int"

definition face_axis :: "face \<Rightarrow> nat" where
  "face_axis f = (if normal f ! 0 \<noteq> 0 then 0 else if normal f ! 1 \<noteq> 0 then 1 else 2)"

definition unit_faces :: "face \<Rightarrow> unit_face list" where
  "unit_faces f =
     (let a = face_axis f; u = (a + 1) mod 3; v = (a + 2) mod 3;
          lo = vertices f ! 0; hi = vertices f ! 2
      in [(a, lo[u := p, v := q], normal f ! a, blockType f).
            q \<leftarrow> [lo ! v..hi ! v - 1], p \<leftarrow> [lo ! u..hi ! u - 1]])"

definition rasterize :: "face list \<Rightarrow> unit_face list" where
  "rasterize fs = concat (map unit_faces fs)"

text \<open>
  The boundary faces of a chunk. The unit square at \<open>pos\<close> across the axis \<open>a\<close> lies
  between the cell \<open>pos - e\<^sub>a\<close> (near) and the cell \<open>pos\<close> (far); cells outside the
  chunk are air, so the planes \<open>0\<close> and \<open>dims[a]\<close> on the border of the chunk are
  included. It is a boundary face when exactly one of the two cells is not air; its
  normal points from the solid cell to the air, and its type is that of the solid cell.
\<close>

definition block_at :: "chunk \<Rightarrow> int list \<Rightarrow> int" where
  "block_at c pos = getBlockInChunk c (pos ! 0) (pos ! 1) (pos ! 2)"

definition boundary_face :: "chunk \<Rightarrow> unit_face \<Rightarrow> bool" where
  "boundary_face c f =
     (case f of (a, pos, s, t) \<Rightarrow>
        a < 3 \<and> length pos = 3
        \<and> 0 \<le> pos ! a \<and> pos ! a \<le> dims ! a
        \<and> 0 \<le> pos ! ((a + 1) mod 3) \<and> pos ! ((a + 1) mod 3) < dims ! ((a + 1) mod 3)
        \<and> 0 \<le> pos ! ((a + 2) mod 3) \<and> pos ! ((a + 2) mod 3) < dims ! ((a + 2) mod 3)
        \<and> (let near = block_at c (pos[a := pos ! a - 1]); far = block_at c pos
           in (near \<noteq> BLOCKS_air) \<noteq> (far \<noteq> BLOCKS_air)
              \<and> s = (if near \<noteq> BLOCKS_air then 1 else - 1)
              \<and> t = (if near \<noteq> BLOCKS_air then near else far)))"

text \<open>
  For the scan of a plane: the unit face that the mask entry \<open>c\<close> at index \<open>k\<close> stands
  for, and the relation between a mask \<open>m\<close>, the faces pushed while it is scanned and
  the mask \<open>m'\<close> left: entries are only ever zeroed, and the faces rasterize, without
  repetition, to the unit faces of the entries zeroed.
\<close>

definition cell_face :: "nat \<Rightarrow> int list \<Rightarrow> nat \<Rightarrow> nat \<Rightarrow> int \<Rightarrow> unit_face" where
  "cell_face axis x dimU k c =
     (axis, x[(axis + 1) mod 3 := int (k mod dimU), (axis + 2) mod 3 := int (k div dimU)],
      (if c > 0 then 1 else - 1), \<bar>c\<bar>)"

definition covers :: "nat \<Rightarrow> int list \<Rightarrow> nat \<Rightarrow> int list \<Rightarrow> face list \<Rightarrow> int list \<Rightarrow> bool" where
  "covers axis x dimU m fs m' \<longleftrightarrow>
     length m' = length m
     \<and> (\<forall>k<length m. m' ! k = 0 \<or> m' ! k = m ! k)
     \<and> distinct (concat (map unit_faces fs))
     \<and> set (concat (map unit_faces fs)) =
         {cell_face axis x dimU k (m ! k) | k. k < length m \<and> m ! k \<noteq> 0 \<and> m' ! k = 0}"


text \<open>
  For the evaluation of the shuffle: the three mixing steps of \<open>random\<close> and the index
  \<open>j\<close> it yields, the list of the swaps \<open>(i, j)\<close> of the shuffle in the order they are
  done, and the index an entry of the shuffled table comes from.
\<close>

definition mix1 :: "32 word \<Rightarrow> 32 word" where
  "mix1 t = (t XOR drop_bit 15 t) * (t OR 1)"

definition mix2 :: "32 word \<Rightarrow> 32 word" where
  "mix2 t = t XOR (t + (t XOR drop_bit 7 t) * (t OR 61))"

definition mix3 :: "32 word \<Rightarrow> 32 word" where
  "mix3 t = t XOR drop_bit 14 t"

definition target :: "nat \<Rightarrow> 32 word \<Rightarrow> nat" where
  "target n w = nat \<lfloor>real (unat w) / 4294967296 * real n\<rfloor>"

fun swap_pairs :: "nat \<Rightarrow> 32 word \<Rightarrow> (nat \<times> nat) list" where
  "swap_pairs 0 seed = []"
| "swap_pairs (Suc n) seed =
     (Suc n, target (Suc n + 1) (mix3 (mix2 (mix1 (seed + 0x6D2B79F5)))))
       # swap_pairs n (seed + 0x6D2B79F5)"

definition swap_step :: "nat \<times> nat \<Rightarrow> 8 word list \<Rightarrow> 8 word list" where
  "swap_step ij p = p[fst ij := p ! snd ij, snd ij := p ! fst ij]"

fun track :: "(nat \<times> nat) list \<Rightarrow> nat \<Rightarrow> nat" where
  "track [] k = k"
| "track (ij # sw) k =
     (let m = track sw k in if m = fst ij then snd ij else if m = snd ij then fst ij else m)"


text \<open>
  Every chunk of the store is created by \<open>generateChunk\<close> with an array of
  \<open>CHUNK_SIZE * WORLD_HEIGHT * CHUNK_SIZE = 16384\<close> bytes, and no write changes the
  length: the invariant of the store.
\<close>

definition chunks_ok :: "chunks \<Rightarrow> bool" where
  "chunks_ok cs = (\<forall>c\<in>ran cs. length (blocks c) = 16384)"


section \<open>Properties of the noise\<close>

lemma tab_range: "0 \<le> tab p i \<and> tab p i \<le> 255"
proof (cases "u8_read p i")
  case None
  then show ?thesis by (simp add: tab_def)
next
  case (Some w)
  have "uint w < 2 ^ LENGTH(8)"
    by (rule uint_bounded)
  with Some show ?thesis by (simp add: tab_def)
qed

lemma and_255_range: "0 \<le> (k :: int) AND 255 \<and> k AND 255 \<le> 255"
  by (simp add: AND_upper2)

lemma random_mix:
  "random seed =
     (seed + 0x6D2B79F5, real (unat (mix3 (mix2 (mix1 (seed + 0x6D2B79F5))))) / 4294967296)"
  by (simp add: random_def mix1_def mix2_def mix3_def Let_def)

lemma shuffle_fold: "shuffle n seed p = fold swap_step (swap_pairs n seed) p"
  by (induction n arbitrary: seed p) (simp_all add: random_mix target_def swap_step_def Let_def)

lemma target_less: "0 < n \<Longrightarrow> target n w < n"
proof -
  assume n: "0 < n"
  have "unat w < 2 ^ LENGTH(32)"
    by (rule unsigned_less)
  then have "unat w < 2 ^ 32"
    by simp
  then have "real (unat w) < real (2 ^ 32)"
    by (simp only: of_nat_less_iff)
  then have "real (unat w) < 4294967296"
    by simp
  then have "real (unat w) / 4294967296 < 1"
    by simp
  then have "real (unat w) / 4294967296 * real n < real n"
    using n by simp
  moreover have "0 \<le> real (unat w) / 4294967296 * real n"
    by (intro mult_nonneg_nonneg divide_nonneg_pos of_nat_0_le_iff) simp
  ultimately show ?thesis
    unfolding target_def by (simp add: floor_less_iff nat_less_iff)
qed

lemma swap_pairs_range: "ij \<in> set (swap_pairs n seed) \<Longrightarrow> fst ij \<le> n \<and> snd ij \<le> n"
proof (induction n arbitrary: seed)
  case 0
  then show ?case by simp
next
  case (Suc n)
  have "target (Suc n + 1) w < Suc n + 1" for w
    by (rule target_less) simp
  then have t: "target (Suc n + 1) w \<le> Suc n" for w
    by (simp add: less_Suc_eq_le)
  from Suc.prems show ?case
    using Suc.IH [where seed = "seed + 0x6D2B79F5"] t by auto
qed

lemma length_swap_step [simp]: "length (swap_step ij p) = length p"
  by (simp add: swap_step_def)

lemma length_fold_swap [simp]: "length (fold swap_step sw p) = length p"
  by (induction sw arbitrary: p) simp_all

lemma track_less:
  "\<forall>ij\<in>set sw. fst ij < n \<and> snd ij < n \<Longrightarrow> k < n \<Longrightarrow> track sw k < n"
  by (induction sw) (auto simp: Let_def)

lemma fold_swap_nth:
  "\<forall>ij\<in>set sw. fst ij < length p \<and> snd ij < length p \<Longrightarrow> k < length p \<Longrightarrow>
   fold swap_step sw p ! k = p ! track sw k"
proof (induction sw arbitrary: p)
  case Nil
  then show ?case by simp
next
  case (Cons ij sw)
  define q where "q = swap_step ij p"
  have lq: "length q = length p" by (simp add: q_def)
  have m: "track sw k < length p"
    using Cons.prems by (intro track_less) auto
  have "fold swap_step (ij # sw) p ! k = fold swap_step sw q ! k"
    by (simp add: q_def)
  also have "\<dots> = q ! track sw k"
    using Cons.prems lq by (intro Cons.IH) auto
  also have "\<dots> = p ! track (ij # sw) k"
    using Cons.prems m by (auto simp: q_def swap_step_def Let_def nth_list_update)
  finally show ?case .
qed

lemma length_fold_init [simp]: "length (fold (\<lambda>i p. p[i := f i]) xs p) = length p"
  by (induction xs arbitrary: p) simp_all

lemma fold_init_nth:
  "n \<le> length p \<Longrightarrow>
   fold (\<lambda>i p. p[i := f i]) [0..<n] p ! m = (if m < n then f m else p ! m)"
  by (induction n) (auto simp: nth_list_update less_Suc_eq)

lemma length_fold_copy [simp]: "length (fold (\<lambda>i p. p[i + d := p ! i]) xs p) = length p"
  by (induction xs arbitrary: p) simp_all

lemma fold_copy_low:
  "k < d \<Longrightarrow> fold (\<lambda>i p. p[i + d := p ! i]) xs p ! k = p ! k"
  by (induction xs arbitrary: p) simp_all

lemma length_shuffle [simp]: "length (shuffle n seed p) = length p"
  by (simp add: shuffle_fold)

lemma perm_table_length: "length (perm_table seed) = 512"
  by (simp add: perm_table_def Let_def)

lemma perm_table_nth:
  assumes "k < 256"
  shows "perm_table seed ! k = of_nat (track (swap_pairs 255 seed) k)"
proof -
  define p1 :: "8 word list" where "p1 = fold (\<lambda>i p. p[i := of_nat i]) [0..<256] (replicate 512 0)"
  have l1: "length p1 = 512" by (simp add: p1_def)
  have rng: "\<forall>ij\<in>set (swap_pairs 255 seed). fst ij < 256 \<and> snd ij < 256"
  proof
    fix ij
    assume "ij \<in> set (swap_pairs 255 seed)"
    then have "fst ij \<le> 255 \<and> snd ij \<le> 255"
      by (rule swap_pairs_range)
    then show "fst ij < 256 \<and> snd ij < 256"
      by simp
  qed
  have t: "track (swap_pairs 255 seed) k < 256"
    using rng assms by (rule track_less)
  have "perm_table seed ! k = shuffle 255 seed p1 ! k"
    using assms by (simp add: perm_table_def Let_def p1_def fold_copy_low)
  also have "\<dots> = p1 ! track (swap_pairs 255 seed) k"
    unfolding shuffle_fold using rng assms l1 by (intro fold_swap_nth) auto
  also have "\<dots> = of_nat (track (swap_pairs 255 seed) k)"
    using t unfolding p1_def by (subst fold_init_nth) simp_all
  finally show ?thesis .
qed

lemma swap_pairs_step:
  "0 < n \<Longrightarrow> swap_pairs n seed =
     (n, target (n + 1) (mix3 (mix2 (mix1 (seed + 0x6D2B79F5)))))
       # swap_pairs (n - 1) (seed + 0x6D2B79F5)"
  by (cases n) simp_all

lemmas mix_eval = mix1_def [of "numeral k"] mix2_def [of "numeral k"] mix3_def [of "numeral k"]
  target_def [of "numeral n" "numeral k"] target_def [of "Suc (Suc 0)" "numeral k"] for k n

lemma swap_pairs_seed0:
  "swap_pairs 255 0 =
     [(255, 68), (254, 0), (253, 56), (252, 36), (251, 117), (250, 136), (249, 153), (248,
      161), (247, 113), (246, 143), (245, 60), (244, 23), (243, 220), (242, 99), (241,
      174), (240, 159), (239, 193), (238, 149), (237, 135), (236, 28), (235, 57), (234,
      191), (233, 75), (232, 20), (231, 183), (230, 209), (229, 126), (228, 107), (227,
      81), (226, 22), (225, 170), (224, 118), (223, 45), (222, 28), (221, 72), (220, 55),
      (219, 76), (218, 57), (217, 38), (216, 73), (215, 176), (214, 93), (213, 102), (212,
      155), (211, 160), (210, 203), (209, 108), (208, 111), (207, 80), (206, 83), (205,
      43), (204, 132), (203, 4), (202, 78), (201, 195), (200, 94), (199, 97), (198, 15),
      (197, 1), (196, 33), (195, 0), (194, 146), (193, 65), (192, 43), (191, 190), (190,
      169), (189, 89), (188, 164), (187, 14), (186, 47), (185, 134), (184, 152), (183,
      143), (182, 17), (181, 40), (180, 81), (179, 65), (178, 6), (177, 146), (176, 137),
      (175, 98), (174, 153), (173, 8), (172, 100), (171, 124), (170, 34), (169, 52), (168,
      107), (167, 78), (166, 0), (165, 32), (164, 101), (163, 101), (162, 34), (161, 42),
      (160, 151), (159, 93), (158, 27), (157, 123), (156, 100), (155, 86), (154, 53),
      (153, 70), (152, 61), (151, 83), (150, 91), (149, 39), (148, 82), (147, 115), (146,
      75), (145, 2), (144, 92), (143, 94), (142, 11), (141, 119), (140, 22), (139, 119),
      (138, 7), (137, 92), (136, 16), (135, 98), (134, 123), (133, 105), (132, 98), (131,
      107), (130, 20), (129, 120), (128, 81), (127, 29), (126, 88), (125, 64), (124, 97),
      (123, 101), (122, 33), (121, 38), (120, 8), (119, 92), (118, 101), (117, 112), (116,
      51), (115, 77), (114, 26), (113, 15), (112, 106), (111, 93), (110, 94), (109, 59),
      (108, 72), (107, 8), (106, 72), (105, 5), (104, 17), (103, 23), (102, 80), (101,
      19), (100, 8), (99, 33), (98, 6), (97, 82), (96, 88), (95, 47), (94, 74), (93, 72),
      (92, 72), (91, 79), (90, 26), (89, 50), (88, 52), (87, 14), (86, 36), (85, 26), (84,
      39), (83, 54), (82, 81), (81, 6), (80, 29), (79, 40), (78, 15), (77, 31), (76, 5),
      (75, 1), (74, 64), (73, 7), (72, 31), (71, 17), (70, 22), (69, 44), (68, 14), (67,
      25), (66, 48), (65, 10), (64, 57), (63, 40), (62, 36), (61, 19), (60, 22), (59, 23),
      (58, 8), (57, 1), (56, 9), (55, 36), (54, 47), (53, 13), (52, 7), (51, 43), (50,
      10), (49, 49), (48, 29), (47, 13), (46, 16), (45, 18), (44, 24), (43, 39), (42, 10),
      (41, 15), (40, 26), (39, 36), (38, 16), (37, 19), (36, 6), (35, 17), (34, 16), (33,
      2), (32, 11), (31, 12), (30, 6), (29, 7), (28, 3), (27, 13), (26, 22), (25, 12),
      (24, 10), (23, 13), (22, 14), (21, 3), (20, 14), (19, 9), (18, 8), (17, 4), (16, 3),
      (15, 9), (14, 13), (13, 6), (12, 5), (11, 1), (10, 3), (9, 0), (8, 6), (7, 6), (6,
      5), (5, 4), (4, 0), (3, 1), (2, 1), (1, 0)]"
  by (simp add: swap_pairs_step mix_eval del: swap_pairs.simps(2))


lemma track_seed0:
  "track (swap_pairs 255 0) 2 = 69" "track (swap_pairs 255 0) 3 = 165"
  "track (swap_pairs 255 0) 69 = 44" "track (swap_pairs 255 0) 70 = 140"
  "track (swap_pairs 255 0) 165 = 32" "track (swap_pairs 255 0) 166 = 201"
  "track (swap_pairs 255 0) 44 = 24" "track (swap_pairs 255 0) 32 = 142"
  "track (swap_pairs 255 0) 140 = 226" "track (swap_pairs 255 0) 201 = 195"
  unfolding swap_pairs_seed0 by simp_all

lemma tab_perm_table:
  "k < 256 \<Longrightarrow> tab (perm_table seed) (int k) = int (track (swap_pairs 255 seed) k mod 256)"
  by (simp add: tab_def u8_read_def perm_table_length perm_table_nth unsigned_of_nat
      take_bit_eq_mod)

lemma tab_seed0:
  "tab (perm_table 0) 2 = 69" "tab (perm_table 0) 3 = 165"
  "tab (perm_table 0) 69 = 44" "tab (perm_table 0) 70 = 140"
  "tab (perm_table 0) 165 = 32" "tab (perm_table 0) 166 = 201"
  "tab (perm_table 0) 44 = 24" "tab (perm_table 0) 32 = 142"
  "tab (perm_table 0) 140 = 226" "tab (perm_table 0) 201 = 195"
  using tab_perm_table [of 2 0] tab_perm_table [of 3 0] tab_perm_table [of 69 0]
    tab_perm_table [of 70 0] tab_perm_table [of 165 0] tab_perm_table [of 166 0]
    tab_perm_table [of 44 0] tab_perm_table [of 32 0] tab_perm_table [of 140 0]
    tab_perm_table [of 201 0]
  by (simp_all add: track_seed0)

text \<open>
  C7. The sample function does not stay in \<open>[-1, 1]\<close>: the gradients of \<open>grad\<close> have
  the components \<open>\<plusminus>1\<close> and \<open>\<plusminus>2\<close>, and where the four corner hashes point away
  from their corners the value at the cell centre is \<open>1.5\<close>. With the seed 0 this
  happens in the cell \<open>(2, 0)\<close>.
\<close>

theorem perlin2D_overshoot: "perlin2D 0 (5 / 2) (1 / 2) = 3 / 2"
proof -
  have fl: "\<lfloor>5 / 2 :: real\<rfloor> = 2" "\<lfloor>1 / 2 :: real\<rfloor> = 0"
    by simp_all
  have g: "grad 24 (1 / 2) (1 / 2) = 3 / 2" "grad 142 (- (1 / 2)) (1 / 2) = 3 / 2"
    "grad 226 (1 / 2) (- (1 / 2)) = 3 / 2" "grad 195 (- (1 / 2)) (- (1 / 2)) = 3 / 2"
    by (simp_all add: grad_def Let_def)
  show ?thesis
    by (simp add: perlin2D_def noise_def Let_def fl tab_seed0 g lerp_def fade_def)
qed

section \<open>Properties of the chunk store\<close>

lemma length_u8_write [simp]: "length (u8_write a i v) = length a"
  by (simp add: u8_write_def)

lemma fold_invariant:
  assumes "P s" and "\<And>x s. x \<in> set xs \<Longrightarrow> P s \<Longrightarrow> P (f x s)"
  shows "P (fold f xs s)"
  using assms by (induction xs arbitrary: s) simp_all

lemma fold_length:
  assumes "\<And>a b. length (f a b) = length b"
  shows "length (fold f xs b) = length b"
  by (induction xs arbitrary: b) (simp_all add: assms)

lemma fold_length_fst:
  assumes "\<And>a s. length (fst (f a s)) = length (fst s)"
  shows "length (fst (fold f xs s)) = length (fst s)"
  by (induction xs arbitrary: s) (simp_all add: assms)

lemma length_trunk_block [simp]: "length (trunk_block x y z i b) = length b"
  by (simp add: trunk_block_def)

lemma length_large_trunk_block [simp]: "length (large_trunk_block x y z d b) = length b"
  by (simp add: large_trunk_block_def Let_def split: prod.splits)

lemma length_leaf [simp]: "length (fst (leaf prob lx ly lz s)) = length (fst s)"
  by (simp add: leaf_def Let_def Math_random_def split: prod.splits)

lemma length_oak_leaf [simp]: "length (fst (oak_leaf x l z d s)) = length (fst s)"
  by (simp add: oak_leaf_def split: prod.splits)

lemma length_tall_leaf [simp]: "length (fst (tall_leaf x l z d s)) = length (fst s)"
  by (simp add: tall_leaf_def split: prod.splits)

lemma length_large_leaf [simp]: "length (fst (large_leaf x l z d s)) = length (fst s)"
  by (simp add: large_leaf_def Let_def split: prod.splits)

lemma length_generateOakTree [simp]: "length (fst (generateOakTree x y z s)) = length (fst s)"
  unfolding generateOakTree_def Let_def Math_random_def prod.case
  by (subst fold_length_fst, simp, simp, rule fold_length, simp)

lemma length_generateTallTree [simp]: "length (fst (generateTallTree x y z s)) = length (fst s)"
  unfolding generateTallTree_def Let_def Math_random_def prod.case
  by (subst fold_length_fst, simp, simp, rule fold_length, simp)

lemma length_generateLargeTree [simp]: "length (fst (generateLargeTree x y z s)) = length (fst s)"
  unfolding generateLargeTree_def Let_def Math_random_def prod.case
  by (subst fold_length_fst, simp, simp, rule fold_length, simp)

lemma length_generateTree [simp]: "length (fst (generateTree x y z s)) = length (fst s)"
  by (simp add: generateTree_def Let_def Math_random_def split: prod.splits)

lemma length_place_block [simp]:
  "length (fst (place_block x z mh th y s)) = length (fst s)"
  by (simp add: place_block_def Let_def Math_random_def split: prod.splits)

lemma length_fill_column [simp]:
  "length (fst (fill_column seed cx cz xz s)) = length (fst s)"
proof -
  have "length (fst (fold (place_block x z mh th) ys s)) = length (fst s)" for x z mh th ys
    by (rule fold_invariant [where P = "\<lambda>t. length (fst t) = length (fst s)"]) simp_all
  then show ?thesis
    by (simp add: fill_column_def Let_def split: prod.splits)
qed

lemma length_generate_blocks: "length (fst (generate_blocks seed cx cz rng)) = 16384"
  unfolding generate_blocks_def
  by (rule fold_invariant [where P = "\<lambda>t. length (fst t) = 16384"])
    (simp_all add: CHUNK_SIZE_def WORLD_HEIGHT_def)

lemma generateChunk_stores:
  "\<exists>c. fst (generateChunk seed w cx cz) (cx, cz) = Some c"
  by (cases "fst w (cx, cz)") (auto simp: generateChunk_def Let_def split: prod.splits)

lemma chunks_ok_generateChunk:
  "chunks_ok (fst w) \<Longrightarrow> chunks_ok (fst (generateChunk seed w cx cz))"
proof (cases "fst w (cx, cz)")
  case None
  assume ok: "chunks_ok (fst w)"
  obtain b rng where g: "generate_blocks seed cx cz (snd w) = (b, rng)"
    by (cases "generate_blocks seed cx cz (snd w)")
  have lb: "length b = 16384"
    using length_generate_blocks [of seed cx cz "snd w"] g by simp
  show ?thesis
    using ok None g lb
    by (auto simp: generateChunk_def chunks_ok_def ran_def split: if_splits)
next
  case (Some c)
  assume "chunks_ok (fst w)"
  with Some show ?thesis by (simp add: generateChunk_def)
qed

lemma local_coord_mod: "local_coord x = x mod CHUNK_SIZE"
proof (cases "x < 0")
  case False
  then have "x smod 16 = x mod 16"
    by (simp add: signed_modulo_int_def sgn_if)
  moreover have "(x mod 16 + 16) smod 16 = (x mod 16 + 16) mod 16"
    by (simp add: signed_modulo_int_def sgn_if)
  ultimately show ?thesis
    by (simp add: local_coord_def CHUNK_SIZE_def)
next
  case True
  define r where "r = (- x) mod 16"
  have r: "0 \<le> r" "r < 16" by (simp_all add: r_def)
  have xs: "x smod 16 = - r"
    using True by (simp add: signed_modulo_int_def sgn_if r_def)
  have "(- r + 16) smod 16 = (- r + 16) mod 16"
    using r by (simp add: signed_modulo_int_def sgn_if)
  moreover have "(- r + 16) mod 16 = x mod 16"
    by (simp add: r_def mod_minus_eq)
  ultimately show ?thesis
    by (simp add: local_coord_def CHUNK_SIZE_def xs)
qed

lemma block_index_range:
  "0 \<le> y \<Longrightarrow> y < WORLD_HEIGHT \<Longrightarrow>
   0 \<le> block_index (local_coord x) y (local_coord z) \<and>
   block_index (local_coord x) y (local_coord z) < 16384"
proof -
  assume y: "0 \<le> y" "y < WORLD_HEIGHT"
  have "0 \<le> x mod 16" "x mod 16 < 16" "0 \<le> z mod 16" "z mod 16 < 16" by simp_all
  with y show ?thesis
    by (simp add: local_coord_mod block_index_def CHUNK_SIZE_def WORLD_HEIGHT_def)
qed

lemma mark_dirty_blocks:
  "map_option blocks (mark_dirty cond key cs k) = map_option blocks (cs k)"
  by (auto simp: mark_dirty_def split: option.splits)

lemma getBlock_cong_blocks:
  "map_option blocks (cs (x div CHUNK_SIZE, z div CHUNK_SIZE)) =
     map_option blocks (cs' (x div CHUNK_SIZE, z div CHUNK_SIZE)) \<Longrightarrow>
   getBlock cs x y z = getBlock cs' x y z"
  by (auto simp: getBlock_def Let_def split: option.splits)

lemma getBlock_setBlock:
  assumes ok: "chunks_ok (fst w)" and y: "0 \<le> y" "y < WORLD_HEIGHT"
  shows "getBlock (fst (setBlock seed w x y z T)) x y z = uint (word_of_int T :: 8 word)"
proof -
  define cx cz where "cx = x div CHUNK_SIZE" and "cz = z div CHUNK_SIZE"
  define w1 where "w1 = (case fst w (cx, cz) of None \<Rightarrow> generateChunk seed w cx cz | Some c \<Rightarrow> w)"
  have ok1: "chunks_ok (fst w1)"
    using ok chunks_ok_generateChunk [OF ok, of seed cx cz]
    by (simp add: w1_def split: option.splits)
  have "\<exists>c. fst w1 (cx, cz) = Some c"
  proof (cases "fst w (cx, cz)")
    case None
    then show ?thesis
      using generateChunk_stores [of seed w cx cz] by (simp add: w1_def)
  next
    case (Some c)
    then show ?thesis by (simp add: w1_def)
  qed
  then obtain c where c: "fst w1 (cx, cz) = Some c" ..
  have lc: "length (blocks c) = 16384"
    using ok1 c by (auto simp: chunks_ok_def ran_def)
  define idx where "idx = block_index (local_coord x) y (local_coord z)"
  have idx: "0 \<le> idx" "idx < 16384"
    using block_index_range [OF y, of x z] by (simp_all add: idx_def)
  define c' where "c' = c\<lparr>blocks := u8_write (blocks c) idx T, needsUpdate := True\<rparr>"
  have "map_option blocks (fst (setBlock seed w x y z T) (cx, cz)) = Some (blocks c')"
    using y c
    by (simp add: setBlock_def Let_def cx_def [symmetric] cz_def [symmetric] w1_def [symmetric]
        mark_dirty_blocks c'_def idx_def)
  then have "getBlock (fst (setBlock seed w x y z T)) x y z
      = getBlock [(cx, cz) \<mapsto> c'] x y z"
    by (intro getBlock_cong_blocks) (simp add: cx_def cz_def)
  also have "\<dots> = or_air (u8_read (blocks c') idx)"
    using y by (simp add: getBlock_def Let_def cx_def cz_def idx_def)
  also have "\<dots> = uint (word_of_int T :: 8 word)"
    using idx lc by (simp add: c'_def u8_read_def u8_write_def or_air_def BLOCKS_air_def)
  finally show ?thesis .
qed

lemma ran_BLOCKS: "ran BLOCKS = {0, 1, 2, 3, 4, 5, 6, 7, 8, 9}"
  unfolding BLOCKS_def by (subst ran_distinct) auto

lemma chunks_ok_iff: "chunks_ok cs \<longleftrightarrow> (\<forall>k c. cs k = Some c \<longrightarrow> length (blocks c) = 16384)"
  by (auto simp: chunks_ok_def ran_def)

lemma chunks_ok_mark_dirty: "chunks_ok cs \<Longrightarrow> chunks_ok (mark_dirty cond key cs)"
  by (auto simp: chunks_ok_iff mark_dirty_def split: option.splits if_splits)

lemma chunks_ok_setBlock:
  assumes ok: "chunks_ok (fst w)"
  shows "chunks_ok (fst (setBlock seed w x y z T))"
proof (cases "y < 0 \<or> y \<ge> WORLD_HEIGHT")
  case True
  with ok show ?thesis by (simp add: setBlock_def)
next
  case False
  define cx cz where "cx = x div CHUNK_SIZE" and "cz = z div CHUNK_SIZE"
  define w1 where "w1 = (case fst w (cx, cz) of None \<Rightarrow> generateChunk seed w cx cz | Some c \<Rightarrow> w)"
  have ok1: "chunks_ok (fst w1)"
    using ok chunks_ok_generateChunk [OF ok, of seed cx cz]
    by (simp add: w1_def split: option.splits)
  show ?thesis
  proof (cases "fst w1 (cx, cz)")
    case None
    with False ok1 show ?thesis
      by (simp add: setBlock_def Let_def cx_def [symmetric] cz_def [symmetric] w1_def [symmetric])
  next
    case (Some c)
    define c' where "c' = c\<lparr>blocks := u8_write (blocks c)
      (block_index (local_coord x) y (local_coord z)) T, needsUpdate := True\<rparr>"
    have "length (blocks c') = 16384"
      using ok1 Some by (simp add: chunks_ok_iff c'_def)
    then have "chunks_ok ((fst w1)((cx, cz) \<mapsto> c'))"
      using ok1 by (auto simp: chunks_ok_iff)
    then show ?thesis
      using False Some
      by (simp add: setBlock_def Let_def cx_def [symmetric] cz_def [symmetric] w1_def [symmetric]
          c'_def [symmetric] chunks_ok_mark_dirty)
  qed
qed

text \<open>
  C1. In a store whose chunks have full-size block arrays, \<open>getBlock\<close> right after
  \<open>setBlock(x, y, z, T)\<close> returns \<open>T\<close> for every block type \<open>T\<close> of the enumeration
  when \<open>0 \<le> y < WORLD_HEIGHT\<close>; when \<open>y\<close> is out of range \<open>setBlock\<close> changes nothing
  at all and \<open>getBlock\<close> returns air.
\<close>

theorem setBlock_getBlock:
  "(chunks_ok (fst w) \<and> 0 \<le> y \<and> y < WORLD_HEIGHT \<and> T \<in> ran BLOCKS \<longrightarrow>
      getBlock (fst (setBlock seed w x y z T)) x y z = T)
   \<and> (y < 0 \<or> y \<ge> WORLD_HEIGHT \<longrightarrow>
      setBlock seed w x y z T = w
      \<and> getBlock (fst (setBlock seed w x y z T)) x y z = BLOCKS_air)"
proof (intro conjI impI)
  assume a: "chunks_ok (fst w) \<and> 0 \<le> y \<and> y < WORLD_HEIGHT \<and> T \<in> ran BLOCKS"
  then have T: "0 \<le> T" "T \<le> 9"
    by (auto simp: ran_BLOCKS)
  have "uint (word_of_int T :: 8 word) = T"
    using T by (simp add: uint_word_of_int take_bit_eq_mod)
  with a show "getBlock (fst (setBlock seed w x y z T)) x y z = T"
    by (simp add: getBlock_setBlock)
next
  assume "y < 0 \<or> y \<ge> WORLD_HEIGHT"
  then show "setBlock seed w x y z T = w"
    by (simp add: setBlock_def)
next
  assume "y < 0 \<or> y \<ge> WORLD_HEIGHT"
  then show "getBlock (fst (setBlock seed w x y z T)) x y z = BLOCKS_air"
    by (simp add: getBlock_def)
qed

lemma chunks_ok_empty: "chunks_ok Map.empty"
  by (simp add: chunks_ok_def)

theorem setBlock_getBlock_witness:
  "chunks_ok Map.empty \<and> 5 \<in> ran BLOCKS
   \<and> getBlock (fst (setBlock 0 (Map.empty, sconst (1 / 2)) 3 10 (- 7) 5)) 3 10 (- 7) = 5
   \<and> setBlock 0 (Map.empty, sconst (1 / 2)) 3 64 (- 7) 5 = (Map.empty, sconst (1 / 2))
   \<and> getBlock (fst (setBlock 0 (Map.empty, sconst (1 / 2)) 3 64 (- 7) 5)) 3 64 (- 7) = BLOCKS_air"
proof -
  have ok: "chunks_ok (fst (Map.empty, sconst (1 / 2 :: real)))"
    by (simp add: chunks_ok_empty)
  have T: "(5 :: int) \<in> ran BLOCKS"
    by (simp add: ran_BLOCKS)
  have a: "getBlock (fst (setBlock 0 (Map.empty, sconst (1 / 2)) 3 10 (- 7) 5)) 3 10 (- 7) = 5"
    using setBlock_getBlock [of "(Map.empty, sconst (1 / 2))" 10 5 0 3 "- 7"] ok T
    by (simp add: WORLD_HEIGHT_def)
  have b: "setBlock 0 (Map.empty, sconst (1 / 2)) 3 64 (- 7) 5 = (Map.empty, sconst (1 / 2))
      \<and> getBlock (fst (setBlock 0 (Map.empty, sconst (1 / 2)) 3 64 (- 7) 5)) 3 64 (- 7)
          = BLOCKS_air"
  proof -
    have "(64 :: int) < 0 \<or> 64 \<ge> WORLD_HEIGHT"
      by (simp add: WORLD_HEIGHT_def)
    then show ?thesis
      using setBlock_getBlock [of "(Map.empty, sconst (1 / 2))" 64 5 0 3 "- 7"] by blast
  qed
  from b have b1: "setBlock 0 (Map.empty, sconst (1 / 2)) 3 64 (- 7) 5
      = (Map.empty, sconst (1 / 2))"
    and b2: "getBlock (fst (setBlock 0 (Map.empty, sconst (1 / 2)) 3 64 (- 7) 5)) 3 64 (- 7)
      = BLOCKS_air"
    by blast+
  show ?thesis
    by (intro conjI) (rule chunks_ok_empty T a b1 b2)+
qed

text \<open>
  C9. The block array is a \<open>Uint8Array\<close>: for an in-range \<open>y\<close> and any integer \<open>T\<close>,
  \<open>getBlock\<close> after \<open>setBlock(x, y, z, T)\<close> returns \<open>T mod 256\<close>, which is \<open>T\<close> exactly
  when \<open>0 \<le> T \<le> 255\<close>.
\<close>

theorem setBlock_getBlock_mod:
  "chunks_ok (fst w) \<and> 0 \<le> y \<and> y < WORLD_HEIGHT \<longrightarrow>
     getBlock (fst (setBlock seed w x y z T)) x y z = T mod 256
     \<and> (getBlock (fst (setBlock seed w x y z T)) x y z = T \<longleftrightarrow> 0 \<le> T \<and> T \<le> 255)"
proof
  assume a: "chunks_ok (fst w) \<and> 0 \<le> y \<and> y < WORLD_HEIGHT"
  have u: "uint (word_of_int T :: 8 word) = T mod 256"
    by (simp add: uint_word_of_int take_bit_eq_mod)
  have g: "getBlock (fst (setBlock seed w x y z T)) x y z = T mod 256"
    using a by (simp add: getBlock_setBlock u)
  have "T mod 256 = T \<longleftrightarrow> 0 \<le> T \<and> T \<le> 255"
  proof
    assume "T mod 256 = T"
    moreover have "0 \<le> T mod 256" "T mod 256 < 256" by simp_all
    ultimately show "0 \<le> T \<and> T \<le> 255" by simp
  next
    assume "0 \<le> T \<and> T \<le> 255"
    then show "T mod 256 = T" by simp
  qed
  with g show "getBlock (fst (setBlock seed w x y z T)) x y z = T mod 256
     \<and> (getBlock (fst (setBlock seed w x y z T)) x y z = T \<longleftrightarrow> 0 \<le> T \<and> T \<le> 255)"
    by simp
qed

theorem setBlock_getBlock_mod_witness:
  "chunks_ok Map.empty
   \<and> getBlock (fst (setBlock 0 (Map.empty, sconst (1 / 2)) 3 10 (- 7) 300)) 3 10 (- 7) = 44
   \<and> getBlock (fst (setBlock 0 (Map.empty, sconst (1 / 2)) 3 10 (- 7) (- 1))) 3 10 (- 7) = 255"
  using setBlock_getBlock_mod [of "(Map.empty, sconst (1 / 2))" 10 0 3 "- 7" 300]
    setBlock_getBlock_mod [of "(Map.empty, sconst (1 / 2))" 10 0 3 "- 7" "- 1"]
  by (simp add: chunks_ok_empty WORLD_HEIGHT_def)

section \<open>Properties of terrain generation\<close>

text \<open>
  The noise is 0 at the origin whatever the table is, so the column \<open>(0, 0)\<close> of the
  chunk \<open>(0, 0)\<close> is flat ground of height 32 for every seed: whether a tree stands
  there is decided by \<open>Math.random\<close> alone.
\<close>

lemma noise_origin: "noise p 0 0 = 0"
  by (simp add: noise_def Let_def fade_def lerp_def grad_def)

lemma column_heights_origin: "column_heights seed 0 0 = (0, 32)"
  by (simp add: column_heights_def perlin2D_def noise_origin Let_def GROUND_LEVEL_def)

lemma place_block_above: "\<lfloor>th\<rfloor> < y \<Longrightarrow> place_block x z mh th y s = s"
  by (simp add: place_block_def Let_def)

lemma place_block_below:
  "y < \<lfloor>th\<rfloor> \<Longrightarrow> snd (place_block x z mh th y s) = snd s"
  by (simp add: place_block_def Let_def)

lemma leaf_sconst: "snd s = sconst c \<Longrightarrow> snd (leaf prob lx ly lz s) = sconst c"
  by (simp add: leaf_def Let_def Math_random_def split: prod.splits)

lemma leaf_keeps: "fst s ! k \<noteq> 0 \<Longrightarrow> fst (leaf prob lx ly lz s) ! k = fst s ! k"
  by (auto simp: leaf_def Let_def Math_random_def u8_read_def u8_write_def BLOCKS_air_def
      nth_list_update split: prod.splits if_splits)

lemma oak_leaf_sconst: "snd s = sconst c \<Longrightarrow> snd (oak_leaf x l z d s) = sconst c"
  by (simp add: oak_leaf_def leaf_sconst split: prod.splits)

lemma oak_leaf_keeps: "fst s ! k \<noteq> 0 \<Longrightarrow> fst (oak_leaf x l z d s) ! k = fst s ! k"
  by (simp add: oak_leaf_def leaf_keeps split: prod.splits)

lemma oak_leaves_fold:
  assumes "snd s = sconst c" and "fst s ! k \<noteq> 0"
  shows "snd (fold (oak_leaf x l z) ds s) = sconst c
    \<and> fst (fold (oak_leaf x l z) ds s) ! k = fst s ! k"
  by (rule fold_invariant [where P = "\<lambda>t. snd t = sconst c \<and> fst t ! k = fst s ! k"])
    (use assms in \<open>auto simp: oak_leaf_sconst oak_leaf_keeps\<close>)

lemma upto_0_4: "[0..4 :: int] = [0, 1, 2, 3, 4]"
  by (simp add: upto_rec1)

lemma trunk_cell:
  "length b = 16384 \<Longrightarrow> fold (trunk_block 0 33 0) [0..4] b ! 8448 = 5"
  by (simp add: upto_0_4 trunk_block_def u8_write_def block_index_def CHUNK_SIZE_def
      WORLD_HEIGHT_def BLOCKS_logs_def)

lemma generateTree_half:
  assumes "length b = 16384"
  shows "snd (generateTree 0 33 0 (b, sconst (1 / 2))) = sconst (1 / 2)
    \<and> fst (generateTree 0 33 0 (b, sconst (1 / 2))) ! 8448 = 5"
proof -
  have fl: "\<lfloor>3 / 2 :: real\<rfloor> = 1" by simp
  have oak: "generateTree 0 33 0 (b, sconst (1 / 2)) = generateOakTree 0 33 0 (b, sconst (1 / 2))"
    by (simp add: generateTree_def Math_random_def)
  have "generateOakTree 0 33 0 (b, sconst (1 / 2)) =
      fold (oak_leaf 0 37 0) oak_offsets (fold (trunk_block 0 33 0) [0..4] b, sconst (1 / 2))"
    by (simp add: generateOakTree_def Math_random_def Let_def fl)
  with oak show ?thesis
    using oak_leaves_fold [of "(fold (trunk_block 0 33 0) [0..4] b, sconst (1 / 2))" "1 / 2" 8448]
      trunk_cell [OF assms]
    by simp
qed

text \<open>The column (0, 0) of the chunk (0, 0) when the first draw is below 0.008.\<close>

lemma place_block_tree:
  assumes "length (fst s) = 16384" and "snd s = 0 ## sconst (1 / 2)"
  shows "snd (place_block 0 0 0 32 32 s) = sconst (1 / 2)
    \<and> fst (place_block 0 0 0 32 32 s) ! 8448 = 5"
proof -
  define b where "b = u8_write (fst s) (block_index 0 32 0) BLOCKS_grass"
  have lb: "length b = 16384"
    using assms by (simp add: b_def u8_write_def)
  have "place_block 0 0 0 32 32 s = generateTree 0 33 0 (b, sconst (1 / 2))"
    using assms by (simp add: place_block_def Let_def Math_random_def b_def)
  then show ?thesis
    using generateTree_half [OF lb] by simp
qed

lemma upto_split_32: "[0..63 :: int] = [0..31] @ 32 # [33..63]"
proof -
  have "[0..63 :: int] = [0..31] @ [31 + 1..63]"
    by (rule upto_split2) simp_all
  also have "[31 + 1..63 :: int] = 32 # [33..63]"
    by (simp add: upto_rec1)
  finally show ?thesis .
qed

lemma column_tree:
  assumes "length b = 16384"
  shows "snd (fold (place_block 0 0 0 32) [0..63] (b, 0 ## sconst (1 / 2))) = sconst (1 / 2)
    \<and> fst (fold (place_block 0 0 0 32) [0..63] (b, 0 ## sconst (1 / 2))) ! 8448 = 5"
proof -
  define s1 where "s1 = fold (place_block 0 0 0 32) [0..31] (b, 0 ## sconst (1 / 2))"
  have "length (fst s1) = 16384 \<and> snd s1 = 0 ## sconst (1 / 2)"
    unfolding s1_def
    by (rule fold_invariant
        [where P = "\<lambda>t. length (fst t) = 16384 \<and> snd t = 0 ## sconst (1 / 2)"])
      (use assms in \<open>auto simp: place_block_below\<close>)
  then have s2: "snd (place_block 0 0 0 32 32 s1) = sconst (1 / 2)
    \<and> fst (place_block 0 0 0 32 32 s1) ! 8448 = 5"
    by (intro place_block_tree) simp_all
  have "fold (place_block 0 0 0 32) [33..63] t = t" for t
    by (rule fold_invariant [where P = "\<lambda>u. u = t"]) (auto simp: place_block_above)
  then have "fold (place_block 0 0 0 32) [0..63] (b, 0 ## sconst (1 / 2))
      = place_block 0 0 0 32 32 s1"
    by (simp add: upto_split_32 s1_def)
  with s2 show ?thesis by simp
qed

text \<open>With every draw equal to 0.5 no tree is planted and only the own cell is written.\<close>

lemma place_block_half:
  "snd s = sconst (1 / 2) \<Longrightarrow> snd (place_block x z mh th y s) = sconst (1 / 2)"
  by (simp add: place_block_def Let_def Math_random_def)

lemma place_block_half_cell:
  "snd s = sconst (1 / 2) \<Longrightarrow> nat (block_index x y z) \<noteq> k \<or> \<lfloor>th\<rfloor> < y \<Longrightarrow>
   fst (place_block x z mh th y s) ! k = fst s ! k"
  by (auto simp: place_block_def Let_def Math_random_def u8_write_def)

lemma column_half:
  assumes "snd s = sconst (1 / 2)"
    and "\<forall>y\<in>set ys. nat (block_index x y z) \<noteq> k \<or> \<lfloor>th\<rfloor> < y"
  shows "snd (fold (place_block x z mh th) ys s) = sconst (1 / 2)
    \<and> fst (fold (place_block x z mh th) ys s) ! k = fst s ! k"
  by (rule fold_invariant [where P = "\<lambda>t. snd t = sconst (1 / 2) \<and> fst t ! k = fst s ! k"])
    (use assms in \<open>auto simp: place_block_half place_block_half_cell\<close>)

lemma other_index:
  assumes "0 \<le> x" "x < 16" "0 \<le> z" "z < 16" "(x, z) \<noteq> (0, 0)" "0 \<le> y"
  shows "nat (block_index x y z) \<noteq> 8448"
proof -
  have "x + z * 16 + y * 256 \<noteq> 8448"
  proof (cases "y \<le> 32")
    case True
    with assms show ?thesis by simp
  next
    case False
    show ?thesis
    proof (cases "y = 33")
      case True
      with assms show ?thesis by auto
    next
      case False
      with \<open>\<not> y \<le> 32\<close> have "34 \<le> y" by simp
      with assms show ?thesis by simp
    qed
  qed
  with assms show ?thesis
    by (simp add: block_index_def CHUNK_SIZE_def)
qed

lemma fill_column_half:
  assumes "snd s = sconst (1 / 2)" and "0 \<le> x" "x < 16" "0 \<le> z" "z < 16" "(x, z) \<noteq> (0, 0)"
  shows "snd (fill_column seed cx cz (x, z) s) = sconst (1 / 2)
    \<and> fst (fill_column seed cx cz (x, z) s) ! 8448 = fst s ! 8448"
proof -
  obtain mh th where h: "column_heights seed (cx * CHUNK_SIZE + x) (cz * CHUNK_SIZE + z) = (mh, th)"
    by (cases "column_heights seed (cx * CHUNK_SIZE + x) (cz * CHUNK_SIZE + z)")
  have "\<forall>y\<in>set [0..WORLD_HEIGHT - 1]. nat (block_index x y z) \<noteq> 8448 \<or> \<lfloor>th\<rfloor> < y"
  proof
    fix y
    assume "y \<in> set [0..WORLD_HEIGHT - 1]"
    then have "0 \<le> y" by simp
    with assms(2-) have "nat (block_index x y z) \<noteq> 8448"
      by (intro other_index)
    then show "nat (block_index x y z) \<noteq> 8448 \<or> \<lfloor>th\<rfloor> < y" ..
  qed
  from column_half [OF assms(1) this, of mh] h show ?thesis
    by (simp add: fill_column_def Let_def)
qed


lemma chunk_columns_split:
  "\<exists>rest. chunk_columns = (0, 0) # rest
     \<and> (\<forall>xz\<in>set rest. 0 \<le> fst xz \<and> fst xz < 16 \<and> 0 \<le> snd xz \<and> snd xz < 16 \<and> xz \<noteq> (0, 0))"
proof -
  have u: "[0..CHUNK_SIZE - 1] = 0 # [1..15]"
    by (simp add: CHUNK_SIZE_def upto_rec1)
  define rest where "rest = map (Pair 0) [1..15]
    @ concat (map (\<lambda>x. map (Pair x) [0..CHUNK_SIZE - 1]) [1..15])"
  have "chunk_columns = (0, 0) # rest"
    unfolding chunk_columns_def rest_def by (subst u) (simp add: u)
  moreover have "\<forall>xz\<in>set rest. 0 \<le> fst xz \<and> fst xz < 16 \<and> 0 \<le> snd xz \<and> snd xz < 16
      \<and> xz \<noteq> (0, 0)"
    unfolding rest_def by (auto simp: CHUNK_SIZE_def)
  ultimately show ?thesis by blast
qed

lemma columns_half:
  assumes "snd s = sconst (1 / 2)"
    and "\<forall>xz\<in>set cols. 0 \<le> fst xz \<and> fst xz < 16 \<and> 0 \<le> snd xz \<and> snd xz < 16 \<and> xz \<noteq> (0, 0)"
  shows "fst (fold (fill_column seed cx cz) cols s) ! 8448 = fst s ! 8448"
proof -
  have "snd (fold (fill_column seed cx cz) cols s) = sconst (1 / 2)
      \<and> fst (fold (fill_column seed cx cz) cols s) ! 8448 = fst s ! 8448"
  proof (rule fold_invariant
      [where P = "\<lambda>t. snd t = sconst (1 / 2) \<and> fst t ! 8448 = fst s ! 8448"])
    show "snd s = sconst (1 / 2) \<and> fst s ! 8448 = fst s ! 8448"
      using assms by simp
  next
    fix xz :: "int \<times> int" and t :: gen_state
    assume xz: "xz \<in> set cols" and t: "snd t = sconst (1 / 2) \<and> fst t ! 8448 = fst s ! 8448"
    obtain x z where [simp]: "xz = (x, z)" by (cases xz)
    have "snd (fill_column seed cx cz (x, z) t) = sconst (1 / 2)
      \<and> fst (fill_column seed cx cz (x, z) t) ! 8448 = fst t ! 8448"
      using assms(2) xz t by (intro fill_column_half) auto
    with t show "snd (fill_column seed cx cz xz t) = sconst (1 / 2)
      \<and> fst (fill_column seed cx cz xz t) ! 8448 = fst s ! 8448"
      by simp
  qed
  then show ?thesis ..
qed

lemma fill_column_origin:
  "fill_column seed 0 0 (0, 0) s = fold (place_block 0 0 0 32) [0..63] s"
  by (simp add: fill_column_def column_heights_origin WORLD_HEIGHT_def)

lemma generate_blocks_half: "fst (generate_blocks seed 0 0 (sconst (1 / 2))) ! 8448 = 0"
proof -
  obtain rest where c: "chunk_columns = (0, 0) # rest"
    and r: "\<forall>xz\<in>set rest. 0 \<le> fst xz \<and> fst xz < 16 \<and> 0 \<le> snd xz \<and> snd xz < 16 \<and> xz \<noteq> (0, 0)"
    using chunk_columns_split by blast
  define s0 :: gen_state where "s0 = (replicate 16384 0, sconst (1 / 2))"
  define s1 where "s1 = fold (place_block 0 0 0 32) [0..63] s0"
  have "\<forall>y\<in>set [0..63]. nat (block_index 0 y 0) \<noteq> 8448 \<or> \<lfloor>32 :: real\<rfloor> < y"
    by (auto simp: block_index_def CHUNK_SIZE_def)
  then have s1: "snd s1 = sconst (1 / 2) \<and> fst s1 ! 8448 = fst s0 ! 8448"
    unfolding s1_def by (intro column_half) (simp add: s0_def)
  have "generate_blocks seed 0 0 (sconst (1 / 2)) = fold (fill_column seed 0 0) rest s1"
    by (simp add: generate_blocks_def c fill_column_origin s1_def s0_def CHUNK_SIZE_def
        WORLD_HEIGHT_def)
  then have "fst (generate_blocks seed 0 0 (sconst (1 / 2))) ! 8448 = fst s1 ! 8448"
    using columns_half [OF _ r, of s1 seed 0 0] s1 by simp
  with s1 show ?thesis by (simp add: s0_def)
qed

lemma generate_blocks_tree: "fst (generate_blocks seed 0 0 (0 ## sconst (1 / 2))) ! 8448 = 5"
proof -
  obtain rest where c: "chunk_columns = (0, 0) # rest"
    and r: "\<forall>xz\<in>set rest. 0 \<le> fst xz \<and> fst xz < 16 \<and> 0 \<le> snd xz \<and> snd xz < 16 \<and> xz \<noteq> (0, 0)"
    using chunk_columns_split by blast
  define s1 where
    "s1 = fold (place_block 0 0 0 32) [0..63] (replicate 16384 0, 0 ## sconst (1 / 2))"
  have s1: "snd s1 = sconst (1 / 2) \<and> fst s1 ! 8448 = 5"
    unfolding s1_def by (rule column_tree) simp
  have "generate_blocks seed 0 0 (0 ## sconst (1 / 2)) = fold (fill_column seed 0 0) rest s1"
    by (simp add: generate_blocks_def c fill_column_origin s1_def CHUNK_SIZE_def WORLD_HEIGHT_def)
  then have "fst (generate_blocks seed 0 0 (0 ## sconst (1 / 2))) ! 8448 = fst s1 ! 8448"
    using columns_half [OF _ r, of s1 seed 0 0] s1 by simp
  with s1 show ?thesis by simp
qed

text \<open>
  Two runs for the chunk \<open>(0, 0)\<close> with the same seed: every draw of \<open>Math.random\<close> is
  0.5 in the first, and the first draw is 0 in the second. The second plants an oak on
  the column \<open>(0, 0)\<close>, whose trunk fills the cell \<open>(0, 33, 0)\<close> that the first leaves
  empty.
\<close>

theorem generateChunk_random_counterexample:
  "map_option blocks (fst (generateChunk 0 (Map.empty, sconst (1 / 2)) 0 0) (0, 0))
     \<noteq> map_option blocks (fst (generateChunk 0 (Map.empty, 0 ## sconst (1 / 2)) 0 0) (0, 0))"
proof -
  have "fst (generate_blocks 0 0 0 (sconst (1 / 2)))
      \<noteq> fst (generate_blocks 0 0 0 (0 ## sconst (1 / 2)))"
    using generate_blocks_half [of 0] generate_blocks_tree [of 0] by auto
  then show ?thesis
    by (simp add: generateChunk_def case_prod_beta)
qed

text \<open>
  C6, as the code has it. A chunk is generated once: \<open>generateChunk\<close> for a stored
  coordinate changes neither the store nor the random stream, so generating the same
  coordinate twice in a world leaves the first grid in place. A new chunk's grid is the
  value of \<open>generate_blocks\<close> at the seed, the coordinate and the stream of
  \<open>Math.random\<close> results, and the stream is advanced by what generation consumed.
\<close>

theorem generateChunk_idempotent:
  "generateChunk seed (generateChunk seed w chunkX chunkZ) chunkX chunkZ
     = generateChunk seed w chunkX chunkZ
   \<and> fst (generateChunk seed (cs, rng) chunkX chunkZ) (chunkX, chunkZ) =
       (case cs (chunkX, chunkZ) of
          Some c \<Rightarrow> Some c
        | None \<Rightarrow> Some \<lparr>chunk_x = chunkX, chunk_z = chunkZ,
                         blocks = fst (generate_blocks seed chunkX chunkZ rng),
                         needsUpdate = True\<rparr>)
   \<and> snd (generateChunk seed (cs, rng) chunkX chunkZ) =
       (case cs (chunkX, chunkZ) of
          Some c \<Rightarrow> rng
        | None \<Rightarrow> snd (generate_blocks seed chunkX chunkZ rng))"
  by (cases "fst w (chunkX, chunkZ)"; cases "cs (chunkX, chunkZ)")
    (simp_all add: generateChunk_def case_prod_beta)

section \<open>Properties of the mesher\<close>

lemma length_fold_zero [simp]: "length (fold (\<lambda>p m. m[g p := (0::int)]) ps m) = length m"
  by (induction ps arbitrary: m) simp_all

lemma fold_zero_nth:
  "q < length m \<Longrightarrow>
   fold (\<lambda>p m. m[g p := (0::int)]) ps m ! q = (if q \<in> g ` set ps then 0 else m ! q)"
  by (induction ps arbitrary: m) (auto simp: nth_list_update)

lemma clear_rect_fold:
  "clear_rect msk n dimU w h =
     fold (\<lambda>p m. m[n + snd p + fst p * dimU := 0]) [(l, k). l \<leftarrow> [0..<h], k \<leftarrow> [0..<w]] msk"
  by (simp add: clear_rect_def case_prod_unfold)

lemma length_clear_rect [simp]: "length (clear_rect msk n dimU w h) = length msk"
  by (simp add: clear_rect_fold)

lemma clear_rect_nth:
  assumes "q < length msk"
  shows "clear_rect msk n dimU w h ! q = (if q \<in> rect_indices n dimU w h then 0 else msk ! q)"
proof -
  have "(\<lambda>p. n + snd p + fst p * dimU) ` set [(l, k). l \<leftarrow> [0..<h], k \<leftarrow> [0..<w]]
      = rect_indices n dimU w h"
  proof (intro set_eqI iffI)
    fix q
    assume "q \<in> (\<lambda>p. n + snd p + fst p * dimU) ` set [(l, k). l \<leftarrow> [0..<h], k \<leftarrow> [0..<w]]"
    then obtain l k where "l < h" "k < w" "q = n + k + l * dimU"
      by auto
    then show "q \<in> rect_indices n dimU w h"
      unfolding rect_indices_def by blast
  next
    fix q
    assume "q \<in> rect_indices n dimU w h"
    then obtain k l where kl: "k < w" "l < h" "q = n + k + l * dimU"
      unfolding rect_indices_def by blast
    then have "(l, k) \<in> set [(l, k). l \<leftarrow> [0..<h], k \<leftarrow> [0..<w]]"
      by (auto intro!: bexI [where x = l])
    then show "q \<in> (\<lambda>p. n + snd p + fst p * dimU) ` set [(l, k). l \<leftarrow> [0..<h], k \<leftarrow> [0..<w]]"
      using kl(3) by (intro image_eqI [where x = "(l, k)"]) simp_all
  qed
  with assms show ?thesis
    by (simp add: clear_rect_fold fold_zero_nth)
qed

lemma width_loop_const:
  assumes "\<forall>k. i + k < dimU \<longrightarrow> msk ! (n + k) = c" and "i + w \<le> dimU"
  shows "width_loop msk n c i dimU w = dimU - i"
  using assms
proof (induction msk n c i dimU w rule: width_loop.induct)
  case (1 msk n c i dimU w)
  show ?case
  proof (cases "i + w < dimU")
    case True
    with "1.prems" have "msk ! (n + w) = c" by simp
    with True "1.IH" "1.prems" show ?thesis
      by (subst width_loop.simps) simp
  next
    case False
    with "1.prems" show ?thesis
      by (subst width_loop.simps) simp
  qed
qed

lemma height_loop_const:
  assumes "\<forall>l k. j + l < dimV \<and> k < w \<longrightarrow> msk ! (n + k + l * dimU) = c" and "j + h \<le> dimV"
  shows "height_loop msk n c j dimU dimV w h = dimV - j"
  using assms
proof (induction msk n c j dimU dimV w h rule: height_loop.induct)
  case (1 msk n c j dimU dimV w h)
  show ?case
  proof (cases "j + h < dimV")
    case True
    with "1.prems" have "\<not> row_differs msk n c dimU w h"
      by (auto simp: row_differs_def list_ex_iff)
    with True "1.IH" "1.prems" show ?thesis
      by (subst height_loop.simps) simp
  next
    case False
    with "1.prems" show ?thesis
      by (subst height_loop.simps) simp
  qed
qed

lemma scan_row_zero:
  assumes "\<forall>k. i + k < dimU \<longrightarrow> msk ! (n + k) = 0" and "i \<le> dimU"
  shows "scan_row axis x dimU dimV j i n msk = ([], n + (dimU - i), msk)"
  using assms
proof (induction axis x dimU dimV j i n msk rule: scan_row.induct)
  case (1 axis x dimU dimV j i n msk)
  show ?case
  proof (cases "i < dimU")
    case True
    with "1.prems" have z: "msk ! n = 0"
      by (metis add.right_neutral)
    have "\<forall>k. i + 1 + k < dimU \<longrightarrow> msk ! (n + 1 + k) = 0"
      using "1.prems"(1) by (metis add.assoc)
    with True z "1.IH"(2) have "scan_row axis x dimU dimV j (i + 1) (n + 1) msk
        = ([], n + 1 + (dimU - (i + 1)), msk)"
      by simp
    with True z show ?thesis
      by (subst scan_row.simps) simp
  next
    case False
    with "1.prems" show ?thesis
      by (subst scan_row.simps) simp
  qed
qed

lemma zero_rows:
  "n + length js * dimU \<le> N \<Longrightarrow>
   fold (\<lambda>j (faces, n, msk).
           let (fs, n, msk) = scan_row axis x dimU dimV j 0 n msk in (faces @ fs, n, msk))
     js (faces, n, replicate N 0) = (faces, n + length js * dimU, replicate N 0)"
proof (induction js arbitrary: n)
  case Nil
  then show ?case by simp
next
  case (Cons j js)
  have "scan_row axis x dimU dimV j 0 n (replicate N 0) = ([], n + (dimU - 0), replicate N 0)"
  proof (rule scan_row_zero)
    show "\<forall>k. 0 + k < dimU \<longrightarrow> replicate N (0::int) ! (n + k) = 0"
    proof (intro allI impI)
      fix k
      assume "0 + k < dimU"
      with Cons.prems have "n + k < N" by simp
      then show "replicate N (0::int) ! (n + k) = 0" by simp
    qed
  qed simp
  moreover have "n + dimU + length js * dimU \<le> N"
    using Cons.prems by simp
  ultimately show ?case
    using Cons.IH [of "n + dimU"] by (simp add: algebra_simps)
qed


text \<open>A plane whose mask is one nonzero value everywhere is meshed into one rectangle.\<close>

lemma scan_plane_const:
  assumes c: "c \<noteq> 0" and pos: "0 < dimU" "0 < dimV"
  shows "scan_plane axis x dimU dimV (replicate (dimU * dimV) c) =
    ([quad axis (x[(axis + 1) mod 3 := 0, (axis + 2) mod 3 := 0]) dimU dimV c],
     dimU * dimV, replicate (dimU * dimV) 0)"
proof -
  let ?m = "replicate (dimU * dimV) c"
  have inrange: "k + l * dimU < dimU * dimV" if "k < dimU" "l < dimV" for k l
  proof -
    from that have "k + l * dimU < dimU + l * dimU" by simp
    also have "\<dots> = dimU * (l + 1)" by (simp add: algebra_simps)
    also have "\<dots> \<le> dimU * dimV" using that by (intro mult_le_mono2) simp
    finally show ?thesis .
  qed
  have cell: "?m ! (k + l * dimU) = c" if "k < dimU" "l < dimV" for k l
    using inrange [OF that] by simp
  have w: "width_loop ?m 0 c 0 dimU (Suc 0) = dimU"
    using width_loop_const [of 0 dimU ?m 0 c 1] cell [of _ 0] pos by simp
  have h: "height_loop ?m 0 c 0 dimU dimV dimU (Suc 0) = dimV"
    using height_loop_const [of 0 dimV dimU ?m 0 dimU c 1] cell pos by simp
  have full: "rect_indices 0 dimU dimU dimV = {..<dimU * dimV}"
  proof (intro set_eqI iffI)
    fix q
    assume "q \<in> rect_indices 0 dimU dimU dimV"
    then show "q \<in> {..<dimU * dimV}"
      using inrange by (auto simp: rect_indices_def)
  next
    fix q
    assume "q \<in> {..<dimU * dimV}"
    then have "q div dimU < dimV"
      using pos by (simp add: less_mult_imp_div_less mult.commute)
    moreover have "q mod dimU < dimU"
      using pos by simp
    moreover have "q = 0 + q mod dimU + q div dimU * dimU"
      by simp
    ultimately show "q \<in> rect_indices 0 dimU dimU dimV"
      unfolding rect_indices_def by blast
  qed
  have clr: "clear_rect ?m 0 dimU dimU dimV = replicate (dimU * dimV) 0"
    by (rule nth_equalityI) (simp_all add: clear_rect_nth full)
  have m0: "?m ! 0 = c"
    using cell [of 0 0] pos by simp
  have rest: "scan_row axis x dimU dimV 0 dimU dimU (replicate (dimU * dimV) 0)
      = ([], dimU, replicate (dimU * dimV) 0)"
    by (subst scan_row.simps) simp
  have first: "scan_row axis x dimU dimV 0 0 0 ?m =
      ([quad axis (x[(axis + 1) mod 3 := 0, (axis + 2) mod 3 := 0]) dimU dimV c], dimU,
       replicate (dimU * dimV) 0)"
    using c pos by (subst scan_row.simps) (simp add: m0 w h clr rest Let_def)
  have rows: "[0..<dimV] = 0 # [1..<dimV]"
    using pos by (simp add: upt_conv_Cons)
  have len: "dimU + length [1..<dimV] * dimU \<le> dimU * dimV"
  proof -
    have "dimU + (dimV - 1) * dimU = dimV * dimU"
      using pos by (cases dimV) simp_all
    then show ?thesis by (simp add: mult.commute)
  qed
  have "dimU + (dimV - 1) * dimU = dimU * dimV"
    using pos by (cases dimV) (simp_all add: mult.commute)
  then show ?thesis
    unfolding scan_plane_def rows
    using zero_rows [OF len, of axis x dimV
        "[quad axis (x[(axis + 1) mod 3 := 0, (axis + 2) mod 3 := 0]) dimU dimV c]"]
    by (simp add: first)
qed

lemma scan_plane_zero:
  "scan_plane axis x dimU dimV (replicate (dimU * dimV) 0) =
     ([], dimU * dimV, replicate (dimU * dimV) 0)"
  unfolding scan_plane_def
  using zero_rows [of 0 "[0..<dimV]" dimU "dimU * dimV" axis x dimV "[]"]
  by (simp add: mult.commute)

lemma axis_cases: "axis < 3 \<Longrightarrow> axis = 0 \<or> axis = 1 \<or> axis = (2::nat)"
  by auto

lemma all_less_three: "(\<forall>k<3. P k) \<longleftrightarrow> P 0 \<and> P 1 \<and> P (2::nat)"
  by (auto simp: numeral_3_eq_3 numeral_2_eq_2 less_Suc_eq)

lemma list3: "length x = 3 \<Longrightarrow> \<exists>a b c. x = [a, b, c]"
  by (cases x; cases "tl x"; cases "tl (tl x)") auto

lemma getBlockInChunk_uniform:
  assumes "blocks c = replicate 16384 t" and "t \<noteq> 0"
    and "0 \<le> x" "x < 16" "0 \<le> y" "y < 64" "0 \<le> z" "z < 16"
  shows "getBlockInChunk c x y z = uint t"
proof -
  have "0 \<le> x + z * 16 + y * 256" "x + z * 16 + y * 256 < 16384"
    using assms(3-) by simp_all
  then show ?thesis
    using assms
    by (simp add: getBlockInChunk_def CHUNK_SIZE_def WORLD_HEIGHT_def block_index_def
        u8_read_def or_air_def)
qed

lemma getBlockInChunk_outside:
  "x < 0 \<or> 16 \<le> x \<or> y < 0 \<or> 64 \<le> y \<or> z < 0 \<or> 16 \<le> z \<Longrightarrow> getBlockInChunk c x y z = 0"
  by (auto simp: getBlockInChunk_def CHUNK_SIZE_def WORLD_HEIGHT_def BLOCKS_air_def)

lemma uint_nonzero: "t \<noteq> 0 \<Longrightarrow> uint (t :: 8 word) \<noteq> 0"
  by (simp add: uint_0_iff)

lemma mask_cell_uniform:
  assumes u: "blocks c = replicate 16384 t" "t \<noteq> 0"
    and ax: "axis < 3" and len: "length x = 3"
    and inr: "\<forall>k<3. k \<noteq> axis \<longrightarrow> 0 \<le> x ! k \<and> x ! k < dims ! k"
    and d: "- 1 \<le> x ! axis" "x ! axis \<le> dims ! axis - 1"
  shows "mask_cell c axis x =
    (if x ! axis = - 1 then - uint t else if x ! axis = dims ! axis - 1 then uint t else 0)"
proof -
  obtain a b e where x: "x = [a, b, e]"
    using list3 [OF len] by blast
  note g = getBlockInChunk_uniform [OF u] getBlockInChunk_outside uint_nonzero [OF u(2)]
  from axis_cases [OF ax] show ?thesis
  proof (elim disjE)
    assume "axis = 0"
    with inr d show ?thesis
      by (auto simp: x mask_cell_def dims_def CHUNK_SIZE_def WORLD_HEIGHT_def g Let_def
          all_less_three)
  next
    assume "axis = 1"
    with inr d show ?thesis
      by (auto simp: x mask_cell_def dims_def CHUNK_SIZE_def WORLD_HEIGHT_def g Let_def
          all_less_three)
  next
    assume "axis = 2"
    with inr d show ?thesis
      by (auto simp: x mask_cell_def dims_def CHUNK_SIZE_def WORLD_HEIGHT_def g Let_def
          all_less_three)
  qed
qed


lemma concat_rows_const:
  assumes "\<And>xu xv. xu < a \<Longrightarrow> xv < b \<Longrightarrow> f xv xu = v"
  shows "concat (map (\<lambda>xv. map (f xv) [0..<a]) [0..<b]) = replicate (a * b) v"
  using assms
proof (induction b)
  case 0
  then show ?case by simp
next
  case (Suc b)
  have "map (f b) [0..<a] = replicate a v"
    using Suc.prems by (intro nth_equalityI) simp_all
  moreover have "concat (map (\<lambda>xv. map (f xv) [0..<a]) [0..<b]) = replicate (a * b) v"
    using Suc.prems by (intro Suc.IH) simp
  ultimately show ?case
    by (simp add: replicate_add [symmetric])
qed

lemma build_mask_uniform:
  assumes u: "blocks c = replicate 16384 t" "t \<noteq> 0"
    and ax: "axis < 3" and d: "- 1 \<le> d" "d \<le> dims ! axis - 1"
  shows "build_mask c axis d =
    replicate (nat (dims ! ((axis + 1) mod 3)) * nat (dims ! ((axis + 2) mod 3)))
      (if d = - 1 then - uint t else if d = dims ! axis - 1 then uint t else 0)"
  unfolding build_mask_def Let_def
proof (rule concat_rows_const)
  fix xu xv
  assume xu: "xu < nat (dims ! ((axis + 1) mod 3))" and xv: "xv < nat (dims ! ((axis + 2) mod 3))"
  let ?x = "[0, 0, 0][axis := d, (axis + 2) mod 3 := int xv, (axis + 1) mod 3 := int xu]"
  have xa: "?x ! axis = d"
    using axis_cases [OF ax] by auto
  have inr: "\<forall>k<3. k \<noteq> axis \<longrightarrow> 0 \<le> ?x ! k \<and> ?x ! k < dims ! k"
    using axis_cases [OF ax] xu xv
    by (auto simp: all_less_three dims_def CHUNK_SIZE_def WORLD_HEIGHT_def)
  have "mask_cell c axis ?x =
      (if ?x ! axis = - 1 then - uint t else if ?x ! axis = dims ! axis - 1 then uint t else 0)"
    using d xa by (intro mask_cell_uniform [OF u ax _ inr]) (simp_all del: list_update.simps(2))
  then show "mask_cell c axis ?x =
      (if d = - 1 then - uint t else if d = dims ! axis - 1 then uint t else 0)"
    by (simp only: xa)
qed

lemma dims_pos: "axis < 3 \<Longrightarrow> 0 < nat (dims ! axis)"
  using axis_cases [of axis] by (auto simp: dims_def CHUNK_SIZE_def WORLD_HEIGHT_def)

lemma slice_faces_uniform:
  assumes u: "blocks c = replicate 16384 t" "t \<noteq> 0"
    and ax: "axis < 3" and d: "- 1 \<le> d" "d \<le> dims ! axis - 1"
  shows "slice_faces c axis d =
    (if d = - 1 \<or> d = dims ! axis - 1
     then [quad axis ([0, 0, 0][axis := d + 1]) (nat (dims ! ((axis + 1) mod 3)))
             (nat (dims ! ((axis + 2) mod 3))) (if d = - 1 then - uint t else uint t)]
     else [])"
proof -
  let ?a = "nat (dims ! ((axis + 1) mod 3))" and ?b = "nat (dims ! ((axis + 2) mod 3))"
  let ?x = "[0, 0, 0][axis := d + 1]"
  have pu: "0 < ?a" and pv: "0 < ?b"
    by (rule dims_pos, simp)+
  have nz: "uint t \<noteq> 0" "- uint t \<noteq> 0"
    using uint_nonzero [OF u(2)] by simp_all
  have upd: "?x[(axis + 1) mod 3 := 0, (axis + 2) mod 3 := 0] = ?x"
    using axis_cases [OF ax] by auto
  have neq: "dims ! axis - 1 \<noteq> - 1"
    using dims_pos [OF ax] by simp
  have sf: "slice_faces c axis d = fst (scan_plane axis ?x ?a ?b (build_mask c axis d))"
    by (simp add: slice_faces_def Let_def)
  have sp: "scan_plane axis ?x ?a ?b (replicate (?a * ?b) v) =
      ([quad axis ?x ?a ?b v], ?a * ?b, replicate (?a * ?b) 0)" if "v \<noteq> 0" for v
    using scan_plane_const [OF that pu pv, of axis ?x] unfolding upd .
  show ?thesis
  proof (cases "d = - 1")
    case True
    then have bm: "build_mask c axis d = replicate (?a * ?b) (- uint t)"
      using build_mask_uniform [OF u ax d] by simp
    show ?thesis
      unfolding sf bm sp [OF nz(2)] using True by (simp del: list_update.simps(2))
  next
    case False
    show ?thesis
    proof (cases "d = dims ! axis - 1")
      case True
      then have bm: "build_mask c axis d = replicate (?a * ?b) (uint t)"
        using build_mask_uniform [OF u ax d] False by simp
      show ?thesis
        unfolding sf bm sp [OF nz(1)] using True False by (simp del: list_update.simps(2))
    next
      case nl: False
      then have bm: "build_mask c axis d = replicate (?a * ?b) 0"
        using build_mask_uniform [OF u ax d] False by simp
      show ?thesis
        unfolding sf bm scan_plane_zero using False nl by simp
    qed
  qed
qed

lemma concat_map_nil: "(\<And>d. d \<in> set ds \<Longrightarrow> f d = []) \<Longrightarrow> concat (map f ds) = []"
  by (induction ds) simp_all

lemma axis_faces_uniform:
  assumes u: "blocks c = replicate 16384 t" "t \<noteq> 0" and ax: "axis < 3"
  shows "concat (map (slice_faces c axis) [- 1..dims ! axis - 1]) =
    [quad axis ([0, 0, 0][axis := 0]) (nat (dims ! ((axis + 1) mod 3)))
       (nat (dims ! ((axis + 2) mod 3))) (- uint t),
     quad axis ([0, 0, 0][axis := dims ! axis]) (nat (dims ! ((axis + 1) mod 3)))
       (nat (dims ! ((axis + 2) mod 3))) (uint t)]"
proof -
  let ?D = "dims ! axis"
  have D: "2 \<le> ?D"
    using axis_cases [OF ax] by (auto simp: dims_def CHUNK_SIZE_def WORLD_HEIGHT_def)
  have "[- 1..?D - 1] = - 1 # [- 1 + 1..?D - 1]"
    using D by (intro upto_rec1) simp
  also have "[- 1 + 1..?D - 1] = [0..?D - 1 - 1] @ [?D - 1]"
    using D by (simp add: upto_rec2 [of 0 "?D - 1"])
  finally have split: "[- 1..?D - 1] = - 1 # [0..?D - 2] @ [?D - 1]"
    by simp
  have first: "slice_faces c axis (- 1) =
      [quad axis ([0, 0, 0][axis := 0]) (nat (dims ! ((axis + 1) mod 3)))
         (nat (dims ! ((axis + 2) mod 3))) (- uint t)]"
    using slice_faces_uniform [OF u ax, of "- 1"] D by (simp del: list_update.simps(2))
  have last: "slice_faces c axis (?D - 1) =
      [quad axis ([0, 0, 0][axis := ?D]) (nat (dims ! ((axis + 1) mod 3)))
         (nat (dims ! ((axis + 2) mod 3))) (uint t)]"
    using slice_faces_uniform [OF u ax, of "?D - 1"] D by (simp del: list_update.simps(2))
  have mid: "concat (map (slice_faces c axis) [0..?D - 2]) = []"
  proof (rule concat_map_nil)
    fix d
    assume "d \<in> set [0..?D - 2]"
    then have "0 \<le> d" "d \<le> ?D - 2" by simp_all
    then show "slice_faces c axis d = []"
      using slice_faces_uniform [OF u ax, of d] by simp
  qed
  show ?thesis
    unfolding split by (simp add: first last mid del: list_update.simps(2))
qed

text \<open>
  C4. A chunk whose grid is one solid block type everywhere is meshed into exactly six
  faces, one per boundary plane of the chunk and in the order of the sweep, each the
  full rectangle of its plane (\<open>64 \<times> 16\<close>, \<open>16 \<times> 16\<close> and \<open>16 \<times> 64\<close>), with the outward
  normal and the block type.
\<close>

theorem greedyMeshChunk_uniform:
  "blocks c = replicate 16384 t \<and> t \<noteq> 0 \<longrightarrow>
   greedyMeshChunk c =
     [\<lparr>vertices = [[0, 0, 0], [0, 0, 16], [0, 64, 16], [0, 64, 0]],
       normal = [- 1, 0, 0], blockType = uint t\<rparr>,
      \<lparr>vertices = [[16, 0, 0], [16, 64, 0], [16, 64, 16], [16, 0, 16]],
       normal = [1, 0, 0], blockType = uint t\<rparr>,
      \<lparr>vertices = [[0, 0, 0], [16, 0, 0], [16, 0, 16], [0, 0, 16]],
       normal = [0, - 1, 0], blockType = uint t\<rparr>,
      \<lparr>vertices = [[0, 64, 0], [0, 64, 16], [16, 64, 16], [16, 64, 0]],
       normal = [0, 1, 0], blockType = uint t\<rparr>,
      \<lparr>vertices = [[0, 0, 0], [0, 64, 0], [16, 64, 0], [16, 0, 0]],
       normal = [0, 0, - 1], blockType = uint t\<rparr>,
      \<lparr>vertices = [[0, 0, 16], [16, 0, 16], [16, 64, 16], [0, 64, 16]],
       normal = [0, 0, 1], blockType = uint t\<rparr>]"
proof
  assume a: "blocks c = replicate 16384 t \<and> t \<noteq> 0"
  then have u: "blocks c = replicate 16384 t" "t \<noteq> 0" by simp_all
  have T: "0 < uint t"
    using uint_nonzero [OF u(2)] by (simp add: order_less_le)
  have f0: "concat (map (slice_faces c 0) [- 1..dims ! 0 - 1]) =
     [\<lparr>vertices = [[0, 0, 0], [0, 0, 16], [0, 64, 16], [0, 64, 0]],
       normal = [- 1, 0, 0], blockType = uint t\<rparr>,
      \<lparr>vertices = [[16, 0, 0], [16, 64, 0], [16, 64, 16], [16, 0, 16]],
       normal = [1, 0, 0], blockType = uint t\<rparr>]"
    using axis_faces_uniform [OF u, of 0] T
    by (simp add: quad_def Let_def dims_def CHUNK_SIZE_def WORLD_HEIGHT_def)
  have f1: "concat (map (slice_faces c 1) [- 1..dims ! 1 - 1]) =
     [\<lparr>vertices = [[0, 0, 0], [16, 0, 0], [16, 0, 16], [0, 0, 16]],
       normal = [0, - 1, 0], blockType = uint t\<rparr>,
      \<lparr>vertices = [[0, 64, 0], [0, 64, 16], [16, 64, 16], [16, 64, 0]],
       normal = [0, 1, 0], blockType = uint t\<rparr>]"
    using axis_faces_uniform [OF u, of 1] T
    by (simp add: quad_def Let_def dims_def CHUNK_SIZE_def WORLD_HEIGHT_def)
  have f2: "concat (map (slice_faces c 2) [- 1..dims ! 2 - 1]) =
     [\<lparr>vertices = [[0, 0, 0], [0, 64, 0], [16, 64, 0], [16, 0, 0]],
       normal = [0, 0, - 1], blockType = uint t\<rparr>,
      \<lparr>vertices = [[0, 0, 16], [16, 0, 16], [16, 64, 16], [0, 64, 16]],
       normal = [0, 0, 1], blockType = uint t\<rparr>]"
    using axis_faces_uniform [OF u, of 2] T
    by (simp add: quad_def Let_def dims_def CHUNK_SIZE_def WORLD_HEIGHT_def)
  have "greedyMeshChunk c =
      concat (map (slice_faces c 0) [- 1..dims ! 0 - 1])
      @ concat (map (slice_faces c 1) [- 1..dims ! 1 - 1])
      @ concat (map (slice_faces c 2) [- 1..dims ! 2 - 1])"
    by (simp add: greedyMeshChunk_def)
  then show "greedyMeshChunk c = [\<lparr>vertices = [[0, 0, 0], [0, 0, 16], [0, 64, 16], [0, 64, 0]],
       normal = [- 1, 0, 0], blockType = uint t\<rparr>,
      \<lparr>vertices = [[16, 0, 0], [16, 64, 0], [16, 64, 16], [16, 0, 16]],
       normal = [1, 0, 0], blockType = uint t\<rparr>,
      \<lparr>vertices = [[0, 0, 0], [16, 0, 0], [16, 0, 16], [0, 0, 16]],
       normal = [0, - 1, 0], blockType = uint t\<rparr>,
      \<lparr>vertices = [[0, 64, 0], [0, 64, 16], [16, 64, 16], [16, 64, 0]],
       normal = [0, 1, 0], blockType = uint t\<rparr>,
      \<lparr>vertices = [[0, 0, 0], [0, 64, 0], [16, 64, 0], [16, 0, 0]],
       normal = [0, 0, - 1], blockType = uint t\<rparr>,
      \<lparr>vertices = [[0, 0, 16], [16, 0, 16], [16, 64, 16], [0, 64, 16]],
       normal = [0, 0, 1], blockType = uint t\<rparr>]"
    unfolding f0 f1 f2 by simp
qed

theorem greedyMeshChunk_uniform_witness:
  "blocks stone_chunk = replicate 16384 1
   \<and> length (greedyMeshChunk stone_chunk) = 6
   \<and> map normal (greedyMeshChunk stone_chunk) =
       [[- 1, 0, 0], [1, 0, 0], [0, - 1, 0], [0, 1, 0], [0, 0, - 1], [0, 0, 1]]
   \<and> map blockType (greedyMeshChunk stone_chunk) = [1, 1, 1, 1, 1, 1]"
  using greedyMeshChunk_uniform [of stone_chunk 1]
  by (simp add: stone_chunk_def)

text \<open>
  The mesher for an arbitrary chunk: the rectangle that the scan finds at a mask entry
  covers exactly the entries it zeroes, a plane is scanned until every entry is zero,
  and the entries of the mask are the boundary faces of the plane.
\<close>

lemma upd_inj:
  assumes "axis < 3" "length x = 3"
  shows "x[(axis + 1) mod 3 := p, (axis + 2) mod 3 := q]
      = x[(axis + 1) mod 3 := p', (axis + 2) mod 3 := q'] \<longleftrightarrow> p = p' \<and> q = q'"
proof -
  obtain a b e where x: "x = [a, b, e]"
    using list3 [OF assms(2)] by blast
  from axis_cases [OF assms(1)] show ?thesis
    by (elim disjE) (auto simp: x)
qed


lemma upd_upd:
  assumes "axis < 3" "length x = 3"
  shows "x[(axis + 1) mod 3 := a, (axis + 2) mod 3 := b,
           (axis + 1) mod 3 := p, (axis + 2) mod 3 := q]
      = x[(axis + 1) mod 3 := p, (axis + 2) mod 3 := q]"
proof -
  obtain a' b' e where x: "x = [a', b', e]"
    using list3 [OF assms(2)] by blast
  from axis_cases [OF assms(1)] show ?thesis
    by (elim disjE) (auto simp: x)
qed

lemma unit_faces_quad:
  assumes "axis < 3" "length x = 3" "c \<noteq> 0"
  shows "unit_faces (quad axis x w h c) =
    [(axis, x[(axis + 1) mod 3 := p, (axis + 2) mod 3 := q], (if c > 0 then 1 else - 1), \<bar>c\<bar>).
       q \<leftarrow> [x ! ((axis + 2) mod 3)..x ! ((axis + 2) mod 3) + int h - 1],
       p \<leftarrow> [x ! ((axis + 1) mod 3)..x ! ((axis + 1) mod 3) + int w - 1]]"
proof -
  obtain a b e where x: "x = [a, b, e]"
    using list3 [OF assms(2)] by blast
  from axis_cases [OF assms(1)] show ?thesis
  proof (elim disjE)
    assume "axis = 0"
    then show ?thesis
      using assms(3) by (simp add: x unit_faces_def quad_def face_axis_def Let_def)
  next
    assume "axis = 1"
    then show ?thesis
      using assms(3) by (simp add: x unit_faces_def quad_def face_axis_def Let_def)
  next
    assume "axis = 2"
    then show ?thesis
      using assms(3) by (simp add: x unit_faces_def quad_def face_axis_def Let_def)
  qed
qed

lemma upd_nth:
  assumes "axis < 3" "length x = 3"
  shows "x[(axis + 1) mod 3 := p, (axis + 2) mod 3 := q] ! ((axis + 1) mod 3) = p"
    and "x[(axis + 1) mod 3 := p, (axis + 2) mod 3 := q] ! ((axis + 2) mod 3) = q"
proof -
  obtain a b e where x: "x = [a, b, e]"
    using list3 [OF assms(2)] by blast
  from axis_cases [OF assms(1)]
  show "x[(axis + 1) mod 3 := p, (axis + 2) mod 3 := q] ! ((axis + 1) mod 3) = p"
    by (elim disjE) (auto simp: x)
  from axis_cases [OF assms(1)]
  show "x[(axis + 1) mod 3 := p, (axis + 2) mod 3 := q] ! ((axis + 2) mod 3) = q"
    by (elim disjE) (auto simp: x)
qed

lemma cell_face_inj:
  assumes "axis < 3" "length x = 3"
    and "cell_face axis x dimU k c = cell_face axis x dimU k' c'"
  shows "k = k'"
proof -
  from assms(3) have "int (k mod dimU) = int (k' mod dimU) \<and> int (k div dimU) = int (k' div dimU)"
    unfolding cell_face_def using upd_inj [OF assms(1,2)] by simp
  then have "k mod dimU = k' mod dimU" "k div dimU = k' div dimU"
    by simp_all
  then show ?thesis
    by (metis div_mult_mod_eq)
qed

lemma covers_refl: "covers axis x dimU m [] m"
  by (auto simp: covers_def)

lemma covers_trans:
  assumes ax: "axis < 3" "length x = 3"
    and c1: "covers axis x dimU m fs1 m1" and c2: "covers axis x dimU m1 fs2 m2"
  shows "covers axis x dimU m (fs1 @ fs2) m2"
proof -
  let ?cf = "cell_face axis x dimU"
  let ?N = "length m"
  from c1 have l1: "length m1 = ?N"
    and z1: "\<And>k. k < ?N \<Longrightarrow> m1 ! k = 0 \<or> m1 ! k = m ! k"
    and d1: "distinct (concat (map unit_faces fs1))"
    and s1: "set (concat (map unit_faces fs1)) =
       {?cf k (m ! k) | k. k < ?N \<and> m ! k \<noteq> 0 \<and> m1 ! k = 0}"
    by (simp_all add: covers_def)
  from c2 l1 have l2: "length m2 = ?N"
    and z2: "\<And>k. k < ?N \<Longrightarrow> m2 ! k = 0 \<or> m2 ! k = m1 ! k"
    and d2: "distinct (concat (map unit_faces fs2))"
    and s2: "set (concat (map unit_faces fs2)) =
       {?cf k (m1 ! k) | k. k < ?N \<and> m1 ! k \<noteq> 0 \<and> m2 ! k = 0}"
    by (simp_all add: covers_def)
  have z: "\<forall>k<?N. m2 ! k = 0 \<or> m2 ! k = m ! k"
    using z1 z2 by metis
  have disj: "set (concat (map unit_faces fs1)) \<inter> set (concat (map unit_faces fs2)) = {}"
  proof (rule ccontr)
    assume "set (concat (map unit_faces fs1)) \<inter> set (concat (map unit_faces fs2)) \<noteq> {}"
    then obtain e where "e \<in> set (concat (map unit_faces fs1))"
      and "e \<in> set (concat (map unit_faces fs2))"
      by blast
    then obtain k k' where k: "e = ?cf k (m ! k)" "m1 ! k = 0"
      and k': "e = ?cf k' (m1 ! k')" "m1 ! k' \<noteq> 0"
      unfolding s1 s2 by blast
    then have "k = k'"
      using cell_face_inj [OF ax, of dimU k "m ! k" k' "m1 ! k'"] by simp
    with k k' show False by simp
  qed
  have s: "set (concat (map unit_faces (fs1 @ fs2))) =
      {?cf k (m ! k) | k. k < ?N \<and> m ! k \<noteq> 0 \<and> m2 ! k = 0}"
  proof (intro set_eqI iffI)
    fix e
    assume "e \<in> set (concat (map unit_faces (fs1 @ fs2)))"
    then consider "e \<in> set (concat (map unit_faces fs1))" | "e \<in> set (concat (map unit_faces fs2))"
      by auto
    then show "e \<in> {?cf k (m ! k) | k. k < ?N \<and> m ! k \<noteq> 0 \<and> m2 ! k = 0}"
    proof cases
      case 1
      then obtain k where k: "e = ?cf k (m ! k)" "k < ?N" "m ! k \<noteq> 0" "m1 ! k = 0"
        unfolding s1 by blast
      then have "m2 ! k = 0" using z2 [of k] by simp
      with k show ?thesis by blast
    next
      case 2
      then obtain k where k: "e = ?cf k (m1 ! k)" "k < ?N" "m1 ! k \<noteq> 0" "m2 ! k = 0"
        unfolding s2 by blast
      then have "m1 ! k = m ! k" using z1 [of k] by simp
      with k show ?thesis by auto
    qed
  next
    fix e
    assume "e \<in> {?cf k (m ! k) | k. k < ?N \<and> m ! k \<noteq> 0 \<and> m2 ! k = 0}"
    then obtain k where k: "e = ?cf k (m ! k)" "k < ?N" "m ! k \<noteq> 0" "m2 ! k = 0"
      by blast
    show "e \<in> set (concat (map unit_faces (fs1 @ fs2)))"
    proof (cases "m1 ! k = 0")
      case True
      with k have "e \<in> set (concat (map unit_faces fs1))"
        unfolding s1 by blast
      then show ?thesis by simp
    next
      case False
      with k z1 [of k] have eq: "m1 ! k = m ! k" by simp
      have "e = ?cf k (m1 ! k)" using k eq by simp
      with k False have "e \<in> {?cf k (m1 ! k) | k. k < ?N \<and> m1 ! k \<noteq> 0 \<and> m2 ! k = 0}"
        by blast
      then have "e \<in> set (concat (map unit_faces fs2))"
        unfolding s2 .
      then show ?thesis by simp
    qed
  qed
  show ?thesis
    unfolding covers_def using l2 z d1 d2 disj s by simp
qed

lemma rect_div_mod:
  fixes i a dimU j l :: nat
  assumes "i + a < dimU"
  shows "(j * dimU + i + a + l * dimU) mod dimU = i + a"
    and "(j * dimU + i + a + l * dimU) div dimU = j + l"
proof -
  have e: "j * dimU + i + a + l * dimU = (i + a) + (j + l) * dimU"
    by (simp add: add_mult_distrib)
  show "(j * dimU + i + a + l * dimU) mod dimU = i + a"
    unfolding e using assms by simp
  show "(j * dimU + i + a + l * dimU) div dimU = j + l"
    unfolding e using assms by simp
qed

lemma rect_indices_iff:
  assumes "i + w \<le> dimU"
  shows "k \<in> rect_indices (j * dimU + i) dimU w h \<longleftrightarrow>
     (\<exists>a l. a < w \<and> l < h \<and> k mod dimU = i + a \<and> k div dimU = j + l)"
proof
  assume "k \<in> rect_indices (j * dimU + i) dimU w h"
  then obtain a l where al: "a < w" "l < h" "k = j * dimU + i + a + l * dimU"
    unfolding rect_indices_def by blast
  then have "i + a < dimU" using assms by simp
  from rect_div_mod [OF this, of j l] al show
    "\<exists>a l. a < w \<and> l < h \<and> k mod dimU = i + a \<and> k div dimU = j + l"
    by auto
next
  assume "\<exists>a l. a < w \<and> l < h \<and> k mod dimU = i + a \<and> k div dimU = j + l"
  then obtain a l where al: "a < w" "l < h" "k mod dimU = i + a" "k div dimU = j + l"
    by blast
  have "k = k div dimU * dimU + k mod dimU" by simp
  then have "k = j * dimU + i + a + l * dimU"
    unfolding al by (simp add: algebra_simps)
  with al show "k \<in> rect_indices (j * dimU + i) dimU w h"
    unfolding rect_indices_def by blast
qed

lemma rect_indices_less:
  assumes "i + w \<le> dimU" "j + h \<le> dimV" "k \<in> rect_indices (j * dimU + i) dimU w h"
  shows "k < dimU * dimV"
proof -
  from assms(3) obtain a l where al: "a < w" "l < h" "k = j * dimU + i + a + l * dimU"
    unfolding rect_indices_def by blast
  have "k = (i + a) + (j + l) * dimU"
    using al by (simp add: add_mult_distrib)
  moreover have "i + a < dimU" using al assms by simp
  moreover have "j + l + 1 \<le> dimV" using al assms by simp
  ultimately have "k < (j + l + 1) * dimU"
    by simp
  also have "\<dots> \<le> dimV * dimU"
    using \<open>j + l + 1 \<le> dimV\<close> by (intro mult_le_mono1)
  finally show ?thesis by (simp add: mult.commute)
qed

lemma distinct_grid:
  assumes "distinct qs" "distinct ps"
    and "\<And>p q p' q'. f p q = f p' q' \<Longrightarrow> p = p' \<and> q = q'"
  shows "distinct [f p q. q \<leftarrow> qs, p \<leftarrow> ps]"
  using assms(1)
proof (induction qs)
  case Nil
  then show ?case by simp
next
  case (Cons q0 qs)
  have "distinct (map (\<lambda>p. f p q0) ps)"
    using assms(2,3) by (auto simp: distinct_map inj_on_def)
  moreover have "set (map (\<lambda>p. f p q0) ps) \<inter> set [f p q. q \<leftarrow> qs, p \<leftarrow> ps] = {}"
    using Cons.prems assms(3) by fastforce
  ultimately show ?case
    using Cons by simp
qed

lemma grid_member:
  "q \<in> set qs \<Longrightarrow> p \<in> set ps \<Longrightarrow> f p q \<in> set [f p q. q \<leftarrow> qs, p \<leftarrow> ps]"
  by auto

lemma covers_rect:
  assumes ax: "axis < 3" "length x = 3"
    and len: "length m = dimU * dimV"
    and i: "i + w \<le> dimU" and j: "j + h \<le> dimV"
    and c: "c \<noteq> 0"
    and cells: "\<And>k. k \<in> rect_indices (j * dimU + i) dimU w h \<Longrightarrow> m ! k = c"
  shows "covers axis x dimU m
           [quad axis (x[(axis + 1) mod 3 := int i, (axis + 2) mod 3 := int j]) w h c]
           (clear_rect m (j * dimU + i) dimU w h)"
proof -
  let ?u = "(axis + 1) mod 3" and ?v = "(axis + 2) mod 3"
  let ?X = "x[?u := int i, ?v := int j]"
  let ?R = "rect_indices (j * dimU + i) dimU w h"
  let ?m' = "clear_rect m (j * dimU + i) dimU w h"
  let ?sg = "if c > 0 then 1 else (- 1 :: int)"
  let ?g = "\<lambda>p q. (axis, x[?u := p, ?v := q], ?sg, \<bar>c\<bar>)"
  have lX: "length ?X = 3" using ax by simp
  have Xu: "?X ! ?u = int i" and Xv: "?X ! ?v = int j"
    using upd_nth [OF ax] by simp_all
  have uf: "unit_faces (quad axis ?X w h c) =
      [?g p q. q \<leftarrow> [int j..int j + int h - 1], p \<leftarrow> [int i..int i + int w - 1]]"
    unfolding unit_faces_quad [OF ax(1) lX c] Xu Xv upd_upd [OF ax] ..
  have inj: "\<And>p q p' q'. ?g p q = ?g p' q' \<Longrightarrow> p = p' \<and> q = q'"
    using upd_inj [OF ax] by simp
  have d: "distinct (unit_faces (quad axis ?X w h c))"
    unfolding uf by (rule distinct_grid) (use inj in simp_all)
  have zero: "?m' ! k = (if k \<in> ?R then 0 else m ! k)" if "k < length m" for k
    using that by (rule clear_rect_nth)
  have s: "set (unit_faces (quad axis ?X w h c)) =
      {cell_face axis x dimU k (m ! k) | k. k < length m \<and> m ! k \<noteq> 0 \<and> ?m' ! k = 0}"
  proof (intro set_eqI iffI)
    fix e
    assume "e \<in> set (unit_faces (quad axis ?X w h c))"
    then obtain p q where pq: "e = ?g p q" "int i \<le> p" "p \<le> int i + int w - 1"
      "int j \<le> q" "q \<le> int j + int h - 1"
      unfolding uf by auto
    define a where "a = nat (p - int i)"
    define l where "l = nat (q - int j)"
    have al: "a < w" "l < h" "p = int (i + a)" "q = int (j + l)"
      using pq by (simp_all add: a_def l_def)
    define k where "k = j * dimU + i + a + l * dimU"
    have ia: "i + a < dimU" using al i by simp
    have kR: "k \<in> ?R" unfolding rect_indices_def k_def using al by blast
    then have kl: "k < length m" using rect_indices_less [OF i j] len by simp
    have "cell_face axis x dimU k (m ! k) = e"
      using rect_div_mod [OF ia, of j l] cells [OF kR] al
      by (simp add: cell_face_def k_def pq(1))
    moreover have "m ! k \<noteq> 0" using cells [OF kR] c by simp
    moreover have "?m' ! k = 0" using zero [OF kl] kR by simp
    ultimately show "e \<in> {cell_face axis x dimU k (m ! k) | k.
        k < length m \<and> m ! k \<noteq> 0 \<and> ?m' ! k = 0}"
      using kl by blast
  next
    fix e
    assume "e \<in> {cell_face axis x dimU k (m ! k) | k. k < length m \<and> m ! k \<noteq> 0 \<and> ?m' ! k = 0}"
    then obtain k where k: "e = cell_face axis x dimU k (m ! k)" "k < length m"
      "m ! k \<noteq> 0" "?m' ! k = 0"
      by blast
    have kR: "k \<in> ?R"
      using zero [OF k(2)] k(3,4) by (auto split: if_splits)
    then obtain a l where al: "a < w" "l < h" "k mod dimU = i + a" "k div dimU = j + l"
      using rect_indices_iff [OF i] by blast
    have e: "e = ?g (int (i + a)) (int (j + l))"
      using k(1) cells [OF kR] al by (simp add: cell_face_def)
    have "int (i + a) \<in> set [int i..int i + int w - 1]"
      using al by simp
    moreover have "int (j + l) \<in> set [int j..int j + int h - 1]"
      using al by simp
    ultimately show "e \<in> set (unit_faces (quad axis ?X w h c))"
      unfolding uf e by (intro grid_member)
  qed
  have keep: "\<forall>k<length m. ?m' ! k = 0 \<or> ?m' ! k = m ! k"
    using zero by simp
  show ?thesis
    unfolding covers_def using d s keep by simp
qed

lemma width_loop_spec:
  assumes "i + w0 \<le> dimU" "\<forall>a<w0. msk ! (n + a) = c"
  shows "w0 \<le> width_loop msk n c i dimU w0
     \<and> i + width_loop msk n c i dimU w0 \<le> dimU
     \<and> (\<forall>a<width_loop msk n c i dimU w0. msk ! (n + a) = c)"
  using assms
proof (induction msk n c i dimU w0 rule: width_loop.induct)
  case (1 msk n c i dimU w)
  show ?case
  proof (cases "i + w < dimU \<and> msk ! (n + w) = c")
    case True
    have "i + (w + 1) \<le> dimU" using True by simp
    moreover have "\<forall>a<w + 1. msk ! (n + a) = c"
      using "1.prems"(2) True by (auto simp: less_Suc_eq)
    ultimately have "w + 1 \<le> width_loop msk n c i dimU (w + 1)
     \<and> i + width_loop msk n c i dimU (w + 1) \<le> dimU
     \<and> (\<forall>a<width_loop msk n c i dimU (w + 1). msk ! (n + a) = c)"
      using True by (intro "1.IH") simp_all
    moreover have "width_loop msk n c i dimU w = width_loop msk n c i dimU (w + 1)"
      using True by (subst width_loop.simps) simp
    ultimately show ?thesis by simp
  next
    case False
    then have "width_loop msk n c i dimU w = w"
      by (subst width_loop.simps) auto
    with "1.prems" show ?thesis by simp
  qed
qed

lemma row_differs_iff:
  "row_differs msk n c dimU w h \<longleftrightarrow> \<not> (\<forall>a<w. msk ! (n + a + h * dimU) = c)"
  by (auto simp: row_differs_def list_ex_iff)

lemma height_loop_spec:
  assumes "j + h0 \<le> dimV" "\<forall>l<h0. \<forall>a<w. msk ! (n + a + l * dimU) = c"
  shows "h0 \<le> height_loop msk n c j dimU dimV w h0
     \<and> j + height_loop msk n c j dimU dimV w h0 \<le> dimV
     \<and> (\<forall>l<height_loop msk n c j dimU dimV w h0. \<forall>a<w. msk ! (n + a + l * dimU) = c)"
  using assms
proof (induction msk n c j dimU dimV w h0 rule: height_loop.induct)
  case (1 msk n c j dimU dimV w h)
  show ?case
  proof (cases "j + h < dimV \<and> \<not> row_differs msk n c dimU w h")
    case True
    have "j + (h + 1) \<le> dimV" using True by simp
    moreover have "\<forall>l<h + 1. \<forall>a<w. msk ! (n + a + l * dimU) = c"
      using "1.prems"(2) True by (auto simp: less_Suc_eq row_differs_iff)
    ultimately have "h + 1 \<le> height_loop msk n c j dimU dimV w (h + 1)
     \<and> j + height_loop msk n c j dimU dimV w (h + 1) \<le> dimV
     \<and> (\<forall>l<height_loop msk n c j dimU dimV w (h + 1). \<forall>a<w. msk ! (n + a + l * dimU) = c)"
      using True by (intro "1.IH") simp_all
    moreover have "height_loop msk n c j dimU dimV w h = height_loop msk n c j dimU dimV w (h + 1)"
      using True by (subst height_loop.simps) simp
    ultimately show ?thesis by simp
  next
    case False
    then have "height_loop msk n c j dimU dimV w h = h"
      by (subst height_loop.simps) auto
    with "1.prems" show ?thesis by simp
  qed
qed

lemma covers_length: "covers axis x dimU m fs m' \<Longrightarrow> length m' = length m"
  by (simp add: covers_def)

lemma scan_row_covers:
  assumes ax: "axis < 3" "length x = 3"
  shows "length msk = dimU * dimV \<Longrightarrow> j < dimV \<Longrightarrow> i \<le> dimU \<Longrightarrow> n = j * dimU + i \<Longrightarrow>
     \<forall>k<n. msk ! k = 0 \<Longrightarrow>
     scan_row axis x dimU dimV j i n msk = (fs, n', msk') \<Longrightarrow>
     n' = (j + 1) * dimU \<and> covers axis x dimU msk fs msk' \<and> (\<forall>k<n'. msk' ! k = 0)"
  using ax
proof (induction axis x dimU dimV j i n msk arbitrary: fs n' msk' rule: scan_row.induct)
  case (1 axis x dimU dimV j i n msk)
  note len = "1.prems"(1) and j = "1.prems"(2) and i = "1.prems"(3) and n = "1.prems"(4)
    and z = "1.prems"(5) and r = "1.prems"(6) and ax = "1.prems"(7,8)
  show ?case
  proof (cases "i < dimU")
    case False
    then have "scan_row axis x dimU dimV j i n msk = ([], n, msk)"
      by (subst scan_row.simps) simp
    with r have "fs = []" "n' = n" "msk' = msk" by simp_all
    moreover have "i = dimU" using False i by simp
    ultimately show ?thesis
      using n z by (simp add: covers_refl)
  next
    case True
    show ?thesis
    proof (cases "msk ! n = 0")
      case zero: True
      have rec: "scan_row axis x dimU dimV j i n msk = scan_row axis x dimU dimV j (i + 1) (n + 1) msk"
        using True zero by (subst scan_row.simps) simp
      have z': "\<forall>k<n + 1. msk ! k = 0"
        using z zero by (auto simp: less_Suc_eq)
      show ?thesis
        using True zero len j n z' r ax unfolding rec
        by (intro "1.IH"(2)) simp_all
    next
      case nz: False
      define c where "c = msk ! n"
      define w where "w = width_loop msk n c i dimU 1"
      define h where "h = height_loop msk n c j dimU dimV w 1"
      define f where "f = quad axis (x[(axis + 1) mod 3 := int i, (axis + 2) mod 3 := int j]) w h c"
      define msk1 where "msk1 = clear_rect msk n dimU w h"
      have wp: "1 \<le> w" "i + w \<le> dimU" "\<forall>a<w. msk ! (n + a) = c"
        using width_loop_spec [of i 1 dimU msk n c] True
        by (simp_all add: w_def c_def)
      have hp: "1 \<le> h" "j + h \<le> dimV" "\<forall>l<h. \<forall>a<w. msk ! (n + a + l * dimU) = c"
        using height_loop_spec [of j 1 dimV w msk n dimU c] j wp(3)
        by (simp_all add: h_def)
      have cells: "msk ! k = c" if "k \<in> rect_indices (j * dimU + i) dimU w h" for k
        using that hp(3) unfolding rect_indices_def n [symmetric] by auto
      have c0: "c \<noteq> 0" using nz by (simp add: c_def)
      have cov1: "covers axis x dimU msk [f] msk1"
        unfolding f_def msk1_def n
        using ax len wp(2) hp(2) c0 cells by (intro covers_rect)
      have len1: "length msk1 = dimU * dimV"
        using len by (simp add: msk1_def)
      have "n < (j + 1) * dimU" using n True by simp
      also have "\<dots> \<le> dimV * dimU"
        using j by (intro mult_le_mono1) simp
      finally have nlt: "n < length msk"
        using len by (simp add: mult.commute)
      have z1: "\<forall>k<n + w. msk1 ! k = 0"
      proof (intro allI impI)
        fix k
        assume k: "k < n + w"
        show "msk1 ! k = 0"
        proof (cases "k < n")
          case True
          then have "k < length msk" using nlt by simp
          moreover have "msk ! k = 0" using z True by simp
          ultimately show ?thesis
            by (simp add: msk1_def clear_rect_nth)
        next
          case False
          define a where "a = k - n"
          have a: "k = n + a" "a < w"
            using False k by (simp_all add: a_def)
          have "k = n + a + 0 * dimU" using a by simp
          with a hp(1) have kR: "k \<in> rect_indices n dimU w h"
            unfolding rect_indices_def by (intro CollectI exI [of _ a] exI [of _ 0]) simp
          then have "k \<in> rect_indices (j * dimU + i) dimU w h"
            by (simp add: n)
          then have "k < length msk"
            using rect_indices_less [OF wp(2) hp(2), of k] len by simp
          with kR show ?thesis
            by (simp add: msk1_def clear_rect_nth)
        qed
      qed
      have unf: "scan_row axis x dimU dimV j i n msk =
          (case scan_row axis x dimU dimV j (i + w) (n + w) msk1 of
             (fs, n, msk) \<Rightarrow> (f # fs, n, msk))"
        using True nz
        by (subst scan_row.simps) (simp add: Let_def c_def w_def h_def f_def msk1_def)
      obtain fs1 n1 m1 where rec1: "scan_row axis x dimU dimV j (i + w) (n + w) msk1 = (fs1, n1, m1)"
        by (cases "scan_row axis x dimU dimV j (i + w) (n + w) msk1") auto
      from r have fs: "fs = f # fs1" and "n1 = n'" and "m1 = msk'"
        unfolding unf rec1 by simp_all
      with rec1 have rec: "scan_row axis x dimU dimV j (i + w) (n + w) msk1 = (fs1, n', msk')"
        by simp
      have "n' = (j + 1) * dimU \<and> covers axis x dimU msk1 fs1 msk' \<and> (\<forall>k<n'. msk' ! k = 0)"
        using True nz len1 j wp(2) n z1 rec ax
        by (intro "1.IH"(1) [of c w h "(axis + 1) mod 3" "(axis + 2) mod 3" f msk1])
          (simp_all add: c_def w_def h_def f_def msk1_def)
      moreover from this cov1 have "covers axis x dimU msk ([f] @ fs1) msk'"
        using ax by (intro covers_trans [of axis x dimU msk "[f]" msk1 fs1 msk']) simp_all
      ultimately show ?thesis
        by (simp add: fs)
    qed
  qed
qed

lemma scan_plane_covers:
  assumes ax: "axis < 3" "length x = 3" and len: "length msk = dimU * dimV"
  shows "distinct (concat (map unit_faces (fst (scan_plane axis x dimU dimV msk))))"
    and "set (concat (map unit_faces (fst (scan_plane axis x dimU dimV msk)))) =
       {cell_face axis x dimU k (msk ! k) | k. k < length msk \<and> msk ! k \<noteq> 0}"
proof -
  define step where "step = (\<lambda>j (faces, n, msk).
             let (fs, n, msk) = scan_row axis x dimU dimV j 0 n msk
             in (faces @ fs, n, msk))"
  have plane: "scan_plane axis x dimU dimV msk = fold step [0..<dimV] ([], 0, msk)"
    by (simp add: scan_plane_def step_def)
  have step_eq: "step j (f1, n1, m1) = (f1 @ fs, n2, m2)"
    if "scan_row axis x dimU dimV j 0 n1 m1 = (fs, n2, m2)" for j f1 n1 m1 fs n2 m2
    using that by (simp add: step_def)
  have pre: "J \<le> dimV \<Longrightarrow> fold step [0..<J] ([], 0, msk) = (faces, n, m') \<Longrightarrow>
     n = J * dimU \<and> covers axis x dimU msk faces m' \<and> (\<forall>k<n. m' ! k = 0)" for J faces n m'
  proof (induction J arbitrary: faces n m')
    case 0
    then show ?case by (simp add: covers_refl)
  next
    case (Suc J)
    obtain f1 n1 m1 where st: "fold step [0..<J] ([], 0, msk) = (f1, n1, m1)"
      by (cases "fold step [0..<J] ([], 0, msk)") auto
    have J: "J \<le> dimV" "J < dimV" using Suc.prems(1) by simp_all
    from Suc.IH [OF J(1) st]
    have ih: "n1 = J * dimU" "covers axis x dimU msk f1 m1" "\<forall>k<n1. m1 ! k = 0"
      by simp_all
    obtain fs n2 m2 where row: "scan_row axis x dimU dimV J 0 n1 m1 = (fs, n2, m2)"
      by (cases "scan_row axis x dimU dimV J 0 n1 m1") auto
    have len1: "length m1 = dimU * dimV"
      using covers_length [OF ih(2)] len by simp
    have n1: "n1 = J * dimU + 0" using ih(1) by simp
    from scan_row_covers [OF ax len1 J(2) _ n1 ih(3) row]
    have r: "n2 = (J + 1) * dimU" "covers axis x dimU m1 fs m2" "\<forall>k<n2. m2 ! k = 0"
      by simp_all
    have "fold step [0..<Suc J] ([], 0, msk) = step J (fold step [0..<J] ([], 0, msk))"
      by simp
    also have "\<dots> = (f1 @ fs, n2, m2)"
      unfolding st by (rule step_eq [OF row])
    finally have "(faces, n, m') = (f1 @ fs, n2, m2)"
      using Suc.prems(2) by simp
    then have "faces = f1 @ fs" "n = n2" "m' = m2"
      by simp_all
    moreover have "covers axis x dimU msk (f1 @ fs) m2"
      using ax ih(2) r(2) by (rule covers_trans)
    ultimately show ?case
      using r by simp
  qed
  obtain faces n m' where sp: "fold step [0..<dimV] ([], 0, msk) = (faces, n, m')"
    by (cases "fold step [0..<dimV] ([], 0, msk)") auto
  from pre [OF _ sp]
  have r: "n = dimV * dimU" "covers axis x dimU msk faces m'" "\<forall>k<n. m' ! k = 0"
    by simp_all
  have z: "m' ! k = 0" if "k < length msk" for k
    using r(1,3) that len by (simp add: mult.commute)
  show "distinct (concat (map unit_faces (fst (scan_plane axis x dimU dimV msk))))"
    using r(2) by (simp add: plane sp covers_def)
  have "set (concat (map unit_faces faces)) =
      {cell_face axis x dimU k (msk ! k) | k. k < length msk \<and> msk ! k \<noteq> 0 \<and> m' ! k = 0}"
    using r(2) by (simp add: covers_def)
  also have "\<dots> = {cell_face axis x dimU k (msk ! k) | k. k < length msk \<and> msk ! k \<noteq> 0}"
    using z by auto
  finally show "set (concat (map unit_faces (fst (scan_plane axis x dimU dimV msk)))) =
       {cell_face axis x dimU k (msk ! k) | k. k < length msk \<and> msk ! k \<noteq> 0}"
    by (simp add: plane sp)
qed

lemma length_concat_rows:
  "length (concat (map (\<lambda>xv. map (f xv) [0..<a]) [0..<b])) = a * b"
  by (induction b) simp_all

lemma concat_rows_nth:
  "k < a * b \<Longrightarrow> concat (map (\<lambda>xv. map (f xv) [0..<a]) [0..<b]) ! k = f (k div a) (k mod a)"
proof (induction b)
  case 0
  then show ?case by simp
next
  case (Suc b)
  show ?case
  proof (cases "k < a * b")
    case True
    with Suc.IH show ?thesis
      by (simp add: nth_append length_concat_rows)
  next
    case False
    define r where "r = k - a * b"
    have k: "k = r + b * a" and r: "r < a"
      using False Suc.prems by (simp_all add: r_def mult.commute)
    have "(r + b * a) div a = b" "(r + b * a) mod a = r"
      using r by simp_all
    then have dm: "k div a = b" "k mod a = r"
      unfolding k by simp_all
    have "concat (map (\<lambda>xv. map (f xv) [0..<a]) [0..<Suc b]) ! k = map (f b) [0..<a] ! r"
      using False by (simp add: nth_append length_concat_rows r_def)
    also have "\<dots> = f b r"
      using r by simp
    finally show ?thesis
      unfolding dm .
  qed
qed

lemma length_build_mask:
  "length (build_mask c axis d) = nat (dims ! ((axis + 1) mod 3)) * nat (dims ! ((axis + 2) mod 3))"
  by (simp add: build_mask_def Let_def length_concat_rows)

lemma build_mask_nth:
  assumes "k < nat (dims ! ((axis + 1) mod 3)) * nat (dims ! ((axis + 2) mod 3))"
  shows "build_mask c axis d ! k =
     mask_cell c axis ([0, 0, 0][axis := d,
        (axis + 2) mod 3 := int (k div nat (dims ! ((axis + 1) mod 3))),
        (axis + 1) mod 3 := int (k mod nat (dims ! ((axis + 1) mod 3)))])"
  using assms by (simp add: build_mask_def Let_def concat_rows_nth)

lemma getBlockInChunk_nonneg: "0 \<le> getBlockInChunk c x y z"
  by (simp add: getBlockInChunk_def or_air_def BLOCKS_air_def split: option.splits)

lemma block_at_nonneg: "0 \<le> block_at c pos"
  by (simp add: block_at_def getBlockInChunk_nonneg)

lemma mask_cell_eq:
  assumes "axis < 3" "length pos = 3"
  shows "mask_cell c axis (pos[axis := pos ! axis - 1]) =
     (let near = block_at c (pos[axis := pos ! axis - 1]); far = block_at c pos
      in if (near \<noteq> 0) = (far \<noteq> 0) then 0 else if near \<noteq> 0 then near else - far)"
proof -
  obtain a b e where pos: "pos = [a, b, e]"
    using list3 [OF assms(2)] by blast
  have out: "getBlockInChunk c x y z = 0"
    if "x < 0 \<or> 16 \<le> x \<or> y < 0 \<or> 64 \<le> y \<or> z < 0 \<or> 16 \<le> z" for x y z
    using that by (rule getBlockInChunk_outside)
  from axis_cases [OF assms(1)] show ?thesis
  proof (elim disjE)
    assume "axis = 0"
    then show ?thesis
      using out [of "a - 1" b e] out [of a b e]
      by (auto simp: pos mask_cell_def block_at_def Let_def dims_def CHUNK_SIZE_def
          WORLD_HEIGHT_def)
  next
    assume "axis = 1"
    then show ?thesis
      using out [of a "b - 1" e] out [of a b e]
      by (auto simp: pos mask_cell_def block_at_def Let_def dims_def CHUNK_SIZE_def
          WORLD_HEIGHT_def)
  next
    assume "axis = 2"
    then show ?thesis
      using out [of a b "e - 1"] out [of a b e]
      by (auto simp: pos mask_cell_def block_at_def Let_def dims_def CHUNK_SIZE_def
          WORLD_HEIGHT_def)
  qed
qed

lemma plane_pos:
  assumes "axis < 3"
  shows "[0, 0, 0][axis := d, (axis + 2) mod 3 := q, (axis + 1) mod 3 := p] =
     ([0, 0, 0][axis := d + 1, (axis + 1) mod 3 := p, (axis + 2) mod 3 := q])[axis := d]"
    and "[0, 0, 0][axis := d + 1, (axis + 1) mod 3 := p, (axis + 2) mod 3 := q] ! axis = d + (1::int)"
  using axis_cases [OF assms] by auto

lemma pos_plane:
  assumes "axis < 3" "length pos = 3"
  shows "[0, 0, 0][axis := pos ! axis, (axis + 1) mod 3 := pos ! ((axis + 1) mod 3),
           (axis + 2) mod 3 := pos ! ((axis + 2) mod 3)] = (pos :: int list)"
proof -
  obtain a b e where pos: "pos = [a, b, e]"
    using list3 [OF assms(2)] by blast
  from axis_cases [OF assms(1)] show ?thesis
    by (auto simp: pos)
qed

lemma dims_nat:
  assumes "axis < 3"
  shows "int (nat (dims ! axis)) = dims ! axis" "0 < nat (dims ! axis)"
  using axis_cases [OF assms] by (auto simp: dims_def CHUNK_SIZE_def WORLD_HEIGHT_def)

lemma mask_value:
  assumes ax: "axis < 3"
    and k: "k < nat (dims ! ((axis + 1) mod 3)) * nat (dims ! ((axis + 2) mod 3))"
  shows "build_mask c axis d ! k =
     (let pos = [0, 0, 0][axis := d + 1,
                  (axis + 1) mod 3 := int (k mod nat (dims ! ((axis + 1) mod 3))),
                  (axis + 2) mod 3 := int (k div nat (dims ! ((axis + 1) mod 3)))];
          near = block_at c (pos[axis := pos ! axis - 1]); far = block_at c pos
      in if (near \<noteq> 0) = (far \<noteq> 0) then 0 else if near \<noteq> 0 then near else - far)"
proof -
  let ?p = "int (k mod nat (dims ! ((axis + 1) mod 3)))"
  let ?q = "int (k div nat (dims ! ((axis + 1) mod 3)))"
  let ?pos = "[0, 0, 0][axis := d + 1, (axis + 1) mod 3 := ?p, (axis + 2) mod 3 := ?q]"
  have l: "length ?pos = 3" by (simp del: list_update.simps)
  have e: "[0, 0, 0][axis := d, (axis + 2) mod 3 := ?q, (axis + 1) mod 3 := ?p]
      = ?pos[axis := ?pos ! axis - 1]"
    by (simp only: plane_pos [OF ax] add_diff_cancel_right')
  show ?thesis
    unfolding build_mask_nth [OF k] e mask_cell_eq [OF ax l] Let_def ..
qed

lemma cell_face_boundary:
  assumes ax: "axis < 3" and d: "- 1 \<le> d" "d \<le> dims ! axis - 1"
    and k: "k < nat (dims ! ((axis + 1) mod 3)) * nat (dims ! ((axis + 2) mod 3))"
    and nz: "build_mask c axis d ! k \<noteq> 0"
  shows "boundary_face c (cell_face axis ([0, 0, 0][axis := d + 1])
            (nat (dims ! ((axis + 1) mod 3))) k (build_mask c axis d ! k))"
proof -
  let ?u = "(axis + 1) mod 3" and ?v = "(axis + 2) mod 3"
  let ?dimU = "nat (dims ! ?u)" and ?dimV = "nat (dims ! ?v)"
  let ?x = "[0, 0, 0][axis := d + 1]"
  define pos where "pos = ?x[?u := int (k mod ?dimU), ?v := int (k div ?dimU)]"
  define near where "near = block_at c (pos[axis := d])"
  define far where "far = block_at c pos"
  have u3: "?u < 3" and v3: "?v < 3" by simp_all
  have lx: "length ?x = 3" by (simp del: list_update.simps)
  have l: "length pos = 3" by (simp add: pos_def del: list_update.simps)
  have pa: "pos ! axis = d + 1"
    unfolding pos_def by (rule plane_pos(2) [OF ax])
  have pu: "pos ! ?u = int (k mod ?dimU)" and pv: "pos ! ?v = int (k div ?dimU)"
    unfolding pos_def by (rule upd_nth [OF ax lx])+
  have dU: "0 < ?dimU" using dims_nat(2) [OF u3] .
  have "k mod ?dimU < ?dimU" using dU by simp
  then have ub: "pos ! ?u < dims ! ?u"
    unfolding pu using dims_nat(1) [OF u3] by linarith
  have "k div ?dimU < ?dimV"
    using k by (simp add: less_mult_imp_div_less mult.commute)
  then have vb: "pos ! ?v < dims ! ?v"
    unfolding pv using dims_nat(1) [OF v3] by linarith
  have pm: "pos ! axis - 1 = d" using pa by simp
  have "build_mask c axis d ! k =
      (let near = block_at c (pos[axis := pos ! axis - 1]); far = block_at c pos
       in if (near \<noteq> 0) = (far \<noteq> 0) then 0 else if near \<noteq> 0 then near else - far)"
    unfolding mask_value [OF ax k] pos_def Let_def ..
  then have m: "build_mask c axis d ! k =
      (if (near \<noteq> 0) = (far \<noteq> 0) then 0 else if near \<noteq> 0 then near else - far)"
    unfolding pm Let_def near_def far_def .
  have nn: "0 \<le> near" "0 \<le> far"
    by (simp_all add: near_def far_def block_at_nonneg)
  have cf: "cell_face axis ?x ?dimU k (build_mask c axis d ! k) =
      (axis, pos, (if build_mask c axis d ! k > 0 then 1 else - 1), \<bar>build_mask c axis d ! k\<bar>)"
    by (simp add: cell_face_def pos_def del: list_update.simps)
  have rng: "0 \<le> pos ! axis" "pos ! axis \<le> dims ! axis" "0 \<le> pos ! ?u" "0 \<le> pos ! ?v"
    using pa d pu pv by simp_all
  have core: "(near \<noteq> 0) \<noteq> (far \<noteq> 0)
      \<and> (if build_mask c axis d ! k > 0 then 1 else - 1) = (if near \<noteq> 0 then 1 else - (1::int))
      \<and> \<bar>build_mask c axis d ! k\<bar> = (if near \<noteq> 0 then near else far)"
    using nz nn unfolding m by (auto split: if_splits)
  show ?thesis
    unfolding cf boundary_face_def prod.case pm Let_def BLOCKS_air_def
      near_def [symmetric] far_def [symmetric]
    using ax l rng ub vb core by simp
qed

lemma cell_face_plane:
  assumes ax: "axis < 3"
  shows "fst (cell_face axis ([0, 0, 0][axis := d + 1]) dimU k v) = axis"
    and "fst (snd (cell_face axis ([0, 0, 0][axis := d + 1]) dimU k v)) ! axis = d + 1"
  using plane_pos(2) [OF ax] by (simp_all add: cell_face_def del: list_update.simps)

lemma boundary_cell:
  assumes ax: "axis < 3"
    and b: "boundary_face c (axis, pos, s, t)" and pa: "pos ! axis = d + 1"
  shows "\<exists>k<nat (dims ! ((axis + 1) mod 3)) * nat (dims ! ((axis + 2) mod 3)).
     build_mask c axis d ! k \<noteq> 0 \<and>
     cell_face axis ([0, 0, 0][axis := d + 1]) (nat (dims ! ((axis + 1) mod 3))) k
       (build_mask c axis d ! k) = (axis, pos, s, t)"
proof -
  let ?u = "(axis + 1) mod 3" and ?v = "(axis + 2) mod 3"
  let ?dimU = "nat (dims ! ?u)" and ?dimV = "nat (dims ! ?v)"
  let ?x = "[0, 0, 0][axis := d + 1]"
  define near where "near = block_at c (pos[axis := d])"
  define far where "far = block_at c pos"
  have pm: "pos ! axis - 1 = d" using pa by simp
  from b have l: "length pos = 3"
    and ur: "0 \<le> pos ! ?u" "pos ! ?u < dims ! ?u"
    and vr: "0 \<le> pos ! ?v" "pos ! ?v < dims ! ?v"
    and df: "(near \<noteq> 0) \<noteq> (far \<noteq> 0)"
    and s: "s = (if near \<noteq> 0 then 1 else - 1)"
    and t: "t = (if near \<noteq> 0 then near else far)"
    unfolding boundary_face_def prod.case pm Let_def BLOCKS_air_def
      near_def [symmetric] far_def [symmetric]
    by simp_all
  define p where "p = nat (pos ! ?u)"
  define q where "q = nat (pos ! ?v)"
  define k where "k = p + q * ?dimU"
  have u3: "?u < 3" and v3: "?v < 3" by simp_all
  have p: "p < ?dimU" "int p = pos ! ?u"
    using ur by (simp_all add: p_def)
  have q: "q < ?dimV" "int q = pos ! ?v"
    using vr by (simp_all add: q_def)
  have kd: "k mod ?dimU = p" "k div ?dimU = q"
    using p(1) by (simp_all add: k_def)
  have "k < ?dimU * (q + 1)" using p(1) by (simp add: k_def)
  also have "\<dots> \<le> ?dimU * ?dimV"
    using q(1) by (intro mult_le_mono2) simp
  finally have kl: "k < ?dimU * ?dimV" .
  have pe: "?x[?u := int (k mod ?dimU), ?v := int (k div ?dimU)] = pos"
    unfolding kd p(2) q(2) pa [symmetric] by (rule pos_plane [OF ax l])
  have "build_mask c axis d ! k =
      (let near = block_at c (pos[axis := pos ! axis - 1]); far = block_at c pos
       in if (near \<noteq> 0) = (far \<noteq> 0) then 0 else if near \<noteq> 0 then near else - far)"
    unfolding mask_value [OF ax kl] Let_def pe ..
  then have m: "build_mask c axis d ! k =
      (if (near \<noteq> 0) = (far \<noteq> 0) then 0 else if near \<noteq> 0 then near else - far)"
    unfolding pm Let_def near_def far_def .
  have nn: "0 \<le> near" "0 \<le> far"
    by (simp_all add: near_def far_def block_at_nonneg)
  have nz: "build_mask c axis d ! k \<noteq> 0"
    unfolding m using df by auto
  have core: "(if build_mask c axis d ! k > 0 then 1 else - 1) = s"
      "\<bar>build_mask c axis d ! k\<bar> = t"
    using df nn unfolding m s t by (auto split: if_splits)
  have "cell_face axis ?x ?dimU k (build_mask c axis d ! k) = (axis, pos, s, t)"
    unfolding cell_face_def pe core ..
  with kl nz show ?thesis by blast
qed

lemma slice_faces_set:
  assumes ax: "axis < 3" and d: "- 1 \<le> d" "d \<le> dims ! axis - 1"
  shows "distinct (concat (map unit_faces (slice_faces c axis d)))"
    and "set (concat (map unit_faces (slice_faces c axis d))) =
       {f. boundary_face c f \<and> fst f = axis \<and> fst (snd f) ! axis = d + 1}"
proof -
  let ?u = "(axis + 1) mod 3" and ?v = "(axis + 2) mod 3"
  let ?dimU = "nat (dims ! ?u)" and ?dimV = "nat (dims ! ?v)"
  let ?x = "[0, 0, 0][axis := d + 1]"
  let ?m = "build_mask c axis d"
  have sl: "slice_faces c axis d = fst (scan_plane axis ?x ?dimU ?dimV ?m)"
    by (simp add: slice_faces_def Let_def)
  have lx: "length ?x = 3" by (simp del: list_update.simps)
  have len: "length ?m = ?dimU * ?dimV" by (rule length_build_mask)
  show "distinct (concat (map unit_faces (slice_faces c axis d)))"
    unfolding sl by (rule scan_plane_covers(1) [OF ax lx len])
  have set: "set (concat (map unit_faces (slice_faces c axis d))) =
      {cell_face axis ?x ?dimU k (?m ! k) | k. k < length ?m \<and> ?m ! k \<noteq> 0}"
    unfolding sl by (rule scan_plane_covers(2) [OF ax lx len])
  show "set (concat (map unit_faces (slice_faces c axis d))) =
       {f. boundary_face c f \<and> fst f = axis \<and> fst (snd f) ! axis = d + 1}"
  proof (intro set_eqI iffI)
    fix f
    assume "f \<in> set (concat (map unit_faces (slice_faces c axis d)))"
    then obtain k where k: "f = cell_face axis ?x ?dimU k (?m ! k)" "k < ?dimU * ?dimV"
      "?m ! k \<noteq> 0"
      unfolding set len by blast
    show "f \<in> {f. boundary_face c f \<and> fst f = axis \<and> fst (snd f) ! axis = d + 1}"
      unfolding k(1)
      using cell_face_boundary [OF ax d k(2,3)] cell_face_plane [OF ax] by simp
  next
    fix f
    assume "f \<in> {f. boundary_face c f \<and> fst f = axis \<and> fst (snd f) ! axis = d + 1}"
    then obtain pos s t where f: "f = (axis, pos, s, t)" "boundary_face c (axis, pos, s, t)"
      "pos ! axis = d + 1"
      by (cases f) auto
    from boundary_cell [OF ax f(2,3)] show "f \<in> set (concat (map unit_faces (slice_faces c axis d)))"
      unfolding set len f(1) by (auto intro: sym)
  qed
qed

lemma rasterize_concat_map:
  "rasterize (concat (map g xs)) = concat (map (\<lambda>x. rasterize (g x)) xs)"
  by (induction xs) (simp_all add: rasterize_def)

lemma distinct_concat_map:
  assumes "distinct xs"
    and "\<And>x. x \<in> set xs \<Longrightarrow> distinct (f x)"
    and "\<And>x y. x \<in> set xs \<Longrightarrow> y \<in> set xs \<Longrightarrow> x \<noteq> y \<Longrightarrow> set (f x) \<inter> set (f y) = {}"
  shows "distinct (concat (map f xs))"
  using assms
proof (induction xs)
  case Nil
  then show ?case by simp
next
  case (Cons x xs)
  have "distinct (concat (map f xs))"
    using Cons.prems by (intro Cons.IH) simp_all
  moreover have "distinct (f x)"
    using Cons.prems(2) by simp
  moreover have "set (f x) \<inter> set (concat (map f xs)) = {}"
  proof -
    have "set (f x) \<inter> set (f y) = {}" if "y \<in> set xs" for y
    proof -
      have "x \<noteq> y" using Cons.prems(1) that by auto
      then show ?thesis
        using that by (intro Cons.prems(3)) simp_all
    qed
    then show ?thesis by auto
  qed
  ultimately show ?case by simp
qed

lemma axis_faces_set:
  assumes ax: "axis < 3"
  shows "distinct (concat (map (\<lambda>d. rasterize (slice_faces c axis d)) [- 1..dims ! axis - 1]))"
    and "set (concat (map (\<lambda>d. rasterize (slice_faces c axis d)) [- 1..dims ! axis - 1])) =
       {f. boundary_face c f \<and> fst f = axis}"
proof -
  have sl: "set (rasterize (slice_faces c axis d)) =
       {f. boundary_face c f \<and> fst f = axis \<and> fst (snd f) ! axis = d + 1}"
    and dl: "distinct (rasterize (slice_faces c axis d))"
    if "d \<in> set [- 1..dims ! axis - 1]" for d
    using slice_faces_set [OF ax, of d c] that by (simp_all add: rasterize_def)
  show "distinct (concat (map (\<lambda>d. rasterize (slice_faces c axis d)) [- 1..dims ! axis - 1]))"
  proof (rule distinct_concat_map)
    show "distinct [- 1..dims ! axis - 1]" by simp
    show "distinct (rasterize (slice_faces c axis d))" if "d \<in> set [- 1..dims ! axis - 1]" for d
      using that by (rule dl)
    show "set (rasterize (slice_faces c axis d)) \<inter> set (rasterize (slice_faces c axis d')) = {}"
      if "d \<in> set [- 1..dims ! axis - 1]" "d' \<in> set [- 1..dims ! axis - 1]" "d \<noteq> d'" for d d'
      unfolding sl [OF that(1)] sl [OF that(2)] using that(3) by auto
  qed
  show "set (concat (map (\<lambda>d. rasterize (slice_faces c axis d)) [- 1..dims ! axis - 1])) =
       {f. boundary_face c f \<and> fst f = axis}"
  proof (intro set_eqI iffI)
    fix f
    assume "f \<in> set (concat (map (\<lambda>d. rasterize (slice_faces c axis d)) [- 1..dims ! axis - 1]))"
    then obtain d where "d \<in> set [- 1..dims ! axis - 1]" "f \<in> set (rasterize (slice_faces c axis d))"
      by auto
    then show "f \<in> {f. boundary_face c f \<and> fst f = axis}"
      using sl by blast
  next
    fix f
    assume f: "f \<in> {f. boundary_face c f \<and> fst f = axis}"
    then obtain pos s t where fe: "f = (axis, pos, s, t)"
      by (cases f) auto
    define d where "d = pos ! axis - 1"
    have "0 \<le> pos ! axis" "pos ! axis \<le> dims ! axis"
      using f by (simp_all add: fe boundary_face_def)
    then have din: "d \<in> set [- 1..dims ! axis - 1]"
      by (simp add: d_def)
    have "f \<in> set (rasterize (slice_faces c axis d))"
      unfolding sl [OF din] using f by (simp add: fe d_def)
    with din show "f \<in> set (concat (map (\<lambda>d. rasterize (slice_faces c axis d))
        [- 1..dims ! axis - 1]))"
      by auto
  qed
qed

lemma rasterize_greedyMeshChunk:
  "rasterize (greedyMeshChunk c) =
     concat (map (\<lambda>axis. concat (map (\<lambda>d. rasterize (slice_faces c axis d))
        [- 1..dims ! axis - 1])) [0, 1, 2])"
  by (simp only: greedyMeshChunk_def rasterize_concat_map)

lemma block_at_stone:
  "block_at stone_chunk [- 1, 0, 0] = 0" "block_at stone_chunk [0, 0, 0] = 1"
  by (simp_all add: block_at_def getBlockInChunk_def stone_chunk_def CHUNK_SIZE_def
      WORLD_HEIGHT_def BLOCKS_air_def block_index_def u8_read_def or_air_def)

text \<open>
  C3. For every chunk, the faces of the greedy mesher rasterize to the boundary faces
  of the chunk: the list of their unit faces has no repetition (no face is emitted
  twice, and no two rectangles overlap), and its set is exactly the set of the unit
  squares between two cells of which exactly one is not air, the cells outside the
  chunk counting as air, each with the normal pointing out of the solid cell and the
  type of that cell. In particular no face lies between two solid cells, whatever
  their types.
\<close>

theorem greedyMeshChunk_boundary:
  "distinct (rasterize (greedyMeshChunk c))
   \<and> set (rasterize (greedyMeshChunk c)) = {f. boundary_face c f}
   \<and> \<not> (\<exists>a pos s t. (a, pos, s, t) \<in> set (rasterize (greedyMeshChunk c))
          \<and> block_at c (pos[a := pos ! a - 1]) \<noteq> BLOCKS_air \<and> block_at c pos \<noteq> BLOCKS_air)"
proof -
  let ?A = "\<lambda>axis. concat (map (\<lambda>d. rasterize (slice_faces c axis d)) [- 1..dims ! axis - 1])"
  have ax: "axis < 3" if "axis \<in> set [0, 1, 2 :: nat]" for axis
    using that by auto
  have d: "distinct (rasterize (greedyMeshChunk c))"
    unfolding rasterize_greedyMeshChunk
  proof (rule distinct_concat_map)
    show "distinct [0, 1, 2 :: nat]" by simp
    show "distinct (?A axis)" if "axis \<in> set [0, 1, 2 :: nat]" for axis
      using axis_faces_set(1) [OF ax [OF that]] .
    show "set (?A axis) \<inter> set (?A axis') = {}"
      if "axis \<in> set [0, 1, 2 :: nat]" "axis' \<in> set [0, 1, 2 :: nat]" "axis \<noteq> axis'"
      for axis axis'
      unfolding axis_faces_set(2) [OF ax [OF that(1)]] axis_faces_set(2) [OF ax [OF that(2)]]
      using that(3) by auto
  qed
  have s: "set (rasterize (greedyMeshChunk c)) = {f. boundary_face c f}"
  proof (intro set_eqI iffI)
    fix f
    assume "f \<in> set (rasterize (greedyMeshChunk c))"
    then obtain axis where "axis \<in> set [0, 1, 2 :: nat]" "f \<in> set (?A axis)"
      unfolding rasterize_greedyMeshChunk by auto
    then show "f \<in> {f. boundary_face c f}"
      using axis_faces_set(2) [OF ax] by blast
  next
    fix f
    assume f: "f \<in> {f. boundary_face c f}"
    then have "fst f < 3"
      by (cases f) (simp add: boundary_face_def)
    then have "fst f \<in> set [0, 1, 2 :: nat]" by auto
    moreover have "f \<in> set (?A (fst f))"
      unfolding axis_faces_set(2) [OF \<open>fst f < 3\<close>] using f by simp
    ultimately show "f \<in> set (rasterize (greedyMeshChunk c))"
      unfolding rasterize_greedyMeshChunk by auto
  qed
  have n: "\<not> (\<exists>a pos s t. (a, pos, s, t) \<in> set (rasterize (greedyMeshChunk c))
          \<and> block_at c (pos[a := pos ! a - 1]) \<noteq> BLOCKS_air \<and> block_at c pos \<noteq> BLOCKS_air)"
    unfolding s by (auto simp: boundary_face_def Let_def)
  from d s n show ?thesis by blast
qed

theorem greedyMeshChunk_boundary_witness:
  "boundary_face stone_chunk (0, [0, 0, 0], - 1, 1)
   \<and> (0, [0, 0, 0], - 1, 1) \<in> set (rasterize (greedyMeshChunk stone_chunk))
   \<and> \<not> boundary_face stone_chunk (0, [1, 0, 0], 1, 1)
   \<and> (0, [1, 0, 0], 1, 1) \<notin> set (rasterize (greedyMeshChunk stone_chunk))"
proof -
  have b: "boundary_face stone_chunk (0, [0, 0, 0], - 1, 1)"
    by (simp add: boundary_face_def block_at_stone Let_def dims_def CHUNK_SIZE_def
        WORLD_HEIGHT_def BLOCKS_air_def)
  have "block_at stone_chunk [1, 0, 0] = 1"
    by (simp add: block_at_def getBlockInChunk_def stone_chunk_def CHUNK_SIZE_def
      WORLD_HEIGHT_def BLOCKS_air_def block_index_def u8_read_def or_air_def)
  then have nb: "\<not> boundary_face stone_chunk (0, [1, 0, 0], 1, 1)"
    by (simp add: boundary_face_def block_at_stone Let_def BLOCKS_air_def)
  from b nb greedyMeshChunk_boundary [of stone_chunk] show ?thesis
    by simp
qed

section \<open>Properties of the double arithmetic\<close>

text \<open>
  \<open>pow2 e\<close> is \<open>2\<close> to the power \<open>e\<close>, the exponent of a number is determined by
  the two powers that enclose it, and \<open>double\<close> rounds the number scaled to a
  significand of \<open>53\<close> bits.
\<close>

lemma pow2_powr: "pow2 e = 2 powr (of_int e)"
  by (simp add: pow2_def powr_realpow [symmetric] powr_minus divide_inverse)

lemma pow2_pos [simp]: "0 < pow2 e"
  by (simp add: pow2_powr)

lemma pow2_less_iff: "pow2 a < pow2 b \<longleftrightarrow> a < b"
  by (simp add: pow2_powr)

lemma pow2_le_iff: "pow2 a \<le> pow2 b \<longleftrightarrow> a \<le> b"
  by (simp add: pow2_powr)

lemma pow2_nat: "0 \<le> e \<Longrightarrow> pow2 e = 2 ^ nat e"
  by (simp add: pow2_def)

lemma pow2_inverse: "pow2 (- e) = 1 / pow2 e"
  by (simp add: pow2_powr powr_minus divide_inverse)

lemma binade_unique:
  assumes "pow2 a \<le> x" "x < pow2 (a + 1)" "pow2 c \<le> x" "x < pow2 (c + 1)"
  shows "a = c"
proof -
  have "pow2 a < pow2 (c + 1)" using assms by linarith
  moreover have "pow2 c < pow2 (a + 1)" using assms by linarith
  ultimately show ?thesis by (simp add: pow2_less_iff)
qed

lemma bitlen_binade:
  assumes "1 \<le> (n :: int)"
  shows "pow2 (bitlen n - 1) \<le> of_int n \<and> of_int n + 1 \<le> pow2 (bitlen n)"
proof -
  have b: "2 ^ nat (bitlen n - 1) \<le> n \<and> n < 2 ^ nat (bitlen n)"
    using bitlen_bounds [of n] assms by simp
  have b1: "1 \<le> bitlen n"
    using assms by (simp add: bitlen_alt_def)
  have "pow2 (bitlen n - 1) = of_int (2 ^ nat (bitlen n - 1))"
    using b1 by (simp add: pow2_nat)
  moreover have "pow2 (bitlen n) = of_int (2 ^ nat (bitlen n))"
    using b1 by (simp add: pow2_nat)
  moreover have "n + 1 \<le> 2 ^ nat (bitlen n)" using b by simp
  ultimately show ?thesis
    using b by (metis of_int_le_iff of_int_add of_int_1)
qed

lemma exponent_eq:
  assumes lo: "pow2 e \<le> \<bar>x\<bar>" and hi: "\<bar>x\<bar> < pow2 (e + 1)"
  shows "exponent x = e"
proof (cases "1 \<le> \<bar>x\<bar>")
  case True
  define n where "n = \<lfloor>\<bar>x\<bar>\<rfloor>"
  have n1: "1 \<le> n" using True by (simp add: n_def le_floor_iff)
  have nx: "of_int n \<le> \<bar>x\<bar>" "\<bar>x\<bar> < of_int n + 1"
    by (simp_all add: n_def)
  from bitlen_binade [OF n1] nx
  have "pow2 (bitlen n - 1) \<le> \<bar>x\<bar>" "\<bar>x\<bar> < pow2 (bitlen n - 1 + 1)"
    by simp_all
  then have "bitlen n - 1 = e"
    using lo hi by (rule binade_unique)
  with True show ?thesis
    by (simp add: exponent_def n_def)
next
  case False
  have x0: "0 < \<bar>x\<bar>" using lo pow2_pos [of e] by linarith
  define y where "y = 1 / \<bar>x\<bar>"
  define n where "n = \<lfloor>y\<rfloor>"
  define b where "b = bitlen n"
  have y1: "1 < y" using False x0 by (simp add: y_def)
  have n1: "1 \<le> n" using y1 by (simp add: n_def le_floor_iff)
  have ny: "of_int n \<le> y" "y < of_int n + 1"
    by (simp_all add: n_def)
  from bitlen_binade [OF n1] ny
  have yb: "pow2 (b - 1) \<le> y" "y < pow2 b"
    by (simp_all add: b_def)
  have xy: "\<bar>x\<bar> = 1 / y" using x0 by (simp add: y_def)
  have up: "\<bar>x\<bar> \<le> pow2 (1 - b)"
  proof -
    have "1 / y \<le> 1 / pow2 (b - 1)"
      using yb(1) by (simp add: frac_le)
    then show ?thesis
      using pow2_inverse [of "b - 1"] by (simp add: xy)
  qed
  have lw: "pow2 (- b) < \<bar>x\<bar>"
  proof -
    have "1 / pow2 b < 1 / y"
      using yb(2) y1 by (simp add: frac_less2)
    then show ?thesis
      using pow2_inverse [of b] by (simp add: xy)
  qed
  show ?thesis
  proof (cases "pow2 (1 - b) \<le> \<bar>x\<bar>")
    case True
    have "\<bar>x\<bar> < pow2 (1 - b + 1)"
      using up pow2_less_iff [of "1 - b" "1 - b + 1"] by linarith
    with True have "1 - b = e"
      using lo hi by (rule binade_unique)
    with True False show ?thesis
      by (simp add: exponent_def b_def n_def y_def Let_def)
  next
    case F2: False
    have "pow2 (- b) \<le> \<bar>x\<bar>" "\<bar>x\<bar> < pow2 (- b + 1)"
      using lw F2 by simp_all
    then have "- b = e"
      using lo hi by (rule binade_unique)
    with F2 False show ?thesis
      by (simp add: exponent_def b_def n_def y_def Let_def)
  qed
qed

lemma double_eq:
  assumes "pow2 e \<le> \<bar>x\<bar>" and "\<bar>x\<bar> < pow2 (e + 1)" and "- 1022 \<le> e"
  shows "double x = of_int (rne (x * pow2 (52 - e))) / pow2 (52 - e)"
proof -
  have "exponent x = e" using assms(1,2) by (rule exponent_eq)
  moreover have "pow2 (e - 52) = 1 / pow2 (52 - e)"
    using pow2_inverse [of "52 - e"] by simp
  ultimately show ?thesis
    using assms(3) by (simp add: double_def Let_def max_def)
qed

lemma double_0 [simp]: "double 0 = 0"
  by (simp add: double_def rne_def)


lemma pow2_numeral:
  "pow2 (numeral k) = 2 ^ numeral k" "pow2 (- numeral k) = 1 / 2 ^ numeral k"
  "pow2 0 = 1" "pow2 1 = 2" "pow2 (- 1) = 1 / 2"
  by (simp_all add: pow2_def)

text \<open>Evaluation of \<open>double\<close> at a number between \<open>2 ^ -8\<close> and \<open>2 ^ 7\<close>.\<close>

lemmas double_binade =
  double_eq [of "- 8"] double_eq [of "- 7"] double_eq [of "- 6"] double_eq [of "- 5"]
  double_eq [of "- 4"] double_eq [of "- 3"] double_eq [of "- 2"] double_eq [of "- 1"]
  double_eq [of "0"] double_eq [of "1"] double_eq [of "2"] double_eq [of "3"] double_eq
  [of "4"] double_eq [of "5"] double_eq [of "6"]

lemmas double_eval = double_binade pow2_numeral rne_def Let_def fadd_def fsub_def fmul_def fdiv_def

lemma double_literals:
  "double (1 / 10) = 3602879701896397 / 36028797018963968"
  "double (3 / 5) = 5404319552844595 / 9007199254740992"
  "double (9 / 5) = 8106479329266893 / 4503599627370496"
  "double (- (1 / 100)) = - (5764607523034235 / 576460752303423488)"
  "double (101 / 100) = 4548635623644201 / 4503599627370496"
  by (simp_all add: double_eval)

section \<open>Properties of the movement code\<close>

lemma dot_zero [simp]: "dot (Vector3 0 0 0) w = 0"
  by (simp add: dot_def Vector3_def)


text \<open>
  C2. \<open>accelerate\<close> computes \<open>addSpeed = wishSpeed - velocity \<sqdot> wishDir\<close>, leaves the
  velocity unchanged when \<open>addSpeed \<le> 0\<close> and otherwise adds
  \<open>wishDir * min (accel * wishSpeed) addSpeed\<close>; position and ground flag are not
  touched. A grounded tick that starts at rest with \<open>wishDir = (1, 0, 0)\<close> has the
  velocity \<open>(0.06, 0, 0)\<close> after friction and acceleration.
\<close>

theorem accelerate_spec:
  "velocity (accelerate wishDir wishSpeed accel p) =
     (if wishSpeed - dot (velocity p) wishDir \<le> 0 then velocity p
      else v_add (velocity p)
             (multiplyScalar wishDir
                (min (accel * wishSpeed) (wishSpeed - dot (velocity p) wishDir))))
   \<and> position (accelerate wishDir wishSpeed accel p) = position p
   \<and> onGround (accelerate wishDir wishSpeed accel p) = onGround p
   \<and> velocity (movePlayer (Vector3 1 0 0) False
                  (p\<lparr>velocity := Vector3 0 0 0, onGround := True\<rparr>)) = Vector3 0.06 0 0"
  by (simp add: accelerate_def Let_def min_def movePlayer_def groundMove_def applyFriction_def
      v_length_def Vector3_def dot_def v_add_def multiplyScalar_def MAX_SPEED_GROUND_def ACCEL_GROUND_def)

lemma floor_hit_iff: "floor_hit b \<longleftrightarrow> b \<noteq> BLOCKS_air"
  by (simp add: floor_hit_def BLOCKS_def BLOCKS_air_def)

lemma probe_z_iff:
  "probe_z cs x feetY z endZ \<longleftrightarrow> (\<exists>k\<in>{z..endZ}. floor_hit (getBlock cs x feetY k))"
proof (induction cs x feetY z endZ rule: probe_z.induct)
  case (1 cs x feetY z endZ)
  show ?case
  proof (cases "z \<le> endZ")
    case False
    then show ?thesis by (simp add: probe_z.simps [of cs x feetY z endZ])
  next
    case True
    have split: "{z..endZ} = insert z {z + 1..endZ}" using True by auto
    show ?thesis
    proof (cases "floor_hit (getBlock cs x feetY z)")
      case True
      with \<open>z \<le> endZ\<close> show ?thesis
        by (subst probe_z.simps) auto
    next
      case False
      with \<open>z \<le> endZ\<close> "1.IH" show ?thesis
        by (subst probe_z.simps) (simp add: split)
    qed
  qed
qed

lemma probe_x_iff:
  "probe_x cs feetY x endX startZ endZ \<longleftrightarrow>
     (\<exists>i\<in>{x..endX}. \<exists>k\<in>{startZ..endZ}. floor_hit (getBlock cs i feetY k))"
proof (induction cs feetY x endX startZ endZ rule: probe_x.induct)
  case (1 cs feetY x endX startZ endZ)
  show ?case
  proof (cases "x \<le> endX")
    case False
    then show ?thesis by (simp add: probe_x.simps [of cs feetY x endX startZ endZ])
  next
    case True
    have split: "{x..endX} = insert x {x + 1..endX}" using True by auto
    show ?thesis
    proof (cases "probe_z cs x feetY startZ endZ")
      case True
      with \<open>x \<le> endX\<close> show ?thesis
        by (subst probe_x.simps) (auto simp: probe_z_iff)
    next
      case False
      with \<open>x \<le> endX\<close> "1.IH" show ?thesis
        by (subst probe_x.simps) (simp add: split probe_z_iff)
    qed
  qed
qed
lemma collideY_eq:
  "collideY cs (p, np) =
     (let b = feet_box (position p) np; feetY = \<lfloor>vy (box_min b)\<rfloor> in
      if vy (velocity p) \<le> 0 \<and>
         (\<exists>x\<in>{\<lfloor>vx (box_min b)\<rfloor>..\<lfloor>vx (box_max b)\<rfloor>}.
          \<exists>z\<in>{\<lfloor>vz (box_min b)\<rfloor>..\<lfloor>vz (box_max b)\<rfloor>}.
             getBlock cs x feetY z \<noteq> BLOCKS_air)
      then (p\<lparr>velocity := (velocity p)\<lparr>vy := 0\<rparr>, onGround := True,
              position := (position p)\<lparr>vy := fadd (of_int feetY) 1\<rparr>\<rparr>,
            np\<lparr>vy := fadd (of_int feetY) 1\<rparr>)
      else (p\<lparr>onGround := False, position := (position p)\<lparr>vy := vy np\<rparr>\<rparr>, np))"
  by (simp add: collideY_def Let_def probe_x_iff floor_hit_iff feet_box_def)

lemma feet_box_y:
  "vy (box_min (feet_box pos np)) =
     fsub (fadd (vy np) (fdiv player_height 2)) (fmul player_height (1 / 2))"
  by (simp add: feet_box_def setFromCenterAndSize_def Let_def sub64_def multiplyScalar64_def
      Vector3_def)

lemma feet_row_10:
  assumes "vy pos = 10" and "vy vel = double (- (1 / 100))"
  shows "\<lfloor>vy (box_min (feet_box pos (add64 pos vel)))\<rfloor> = 9"
proof -
  have np: "vy (add64 pos vel) = 5623870034678907 / 562949953421312"
    using assms by (simp add: add64_def double_literals double_eval)
  have h: "fdiv player_height 2 = 8106479329266893 / 9007199254740992"
    by (simp add: player_height_def double_literals double_eval)
  have h': "fmul player_height (1 / 2) = 8106479329266893 / 9007199254740992"
    by (simp add: player_height_def double_literals double_eval)
  have c: "fadd (5623870034678907 / 562949953421312) (8106479329266893 / 9007199254740992)
      = 766315624094761 / 70368744177664"
    by (simp add: double_eval)
  have m: "fsub (766315624094761 / 70368744177664) (8106479329266893 / 9007199254740992)
      = 5623870034678907 / 562949953421312"
    by (simp add: double_eval)
  show ?thesis
    unfolding feet_box_y np h h' c m by linarith
qed

lemma fadd_9_1: "fadd 9 1 = 10"
  by (simp add: double_eval)

lemma local_coord_0 [simp]: "local_coord 0 = 0"
  by (simp add: local_coord_def CHUNK_SIZE_def signed_modulo_int_def)

lemma getBlock_floor_example: "getBlock floor_example 0 9 0 = 1"
  by (simp add: getBlock_def floor_example_def WORLD_HEIGHT_def CHUNK_SIZE_def block_index_def
      u8_read_def or_air_def)

lemma getBlock_floor_example_10: "getBlock floor_example 0 10 0 = 0"
  by (simp add: getBlock_def floor_example_def WORLD_HEIGHT_def CHUNK_SIZE_def block_index_def
      u8_read_def or_air_def BLOCKS_air_def)

lemma feet_box_columns:
  "vx (box_min (feet_box pos np)) = fsub (vx pos) (fmul player_width (1 / 2))"
  "vx (box_max (feet_box pos np)) = fadd (vx pos) (fmul player_width (1 / 2))"
  "vz (box_min (feet_box pos np)) = fsub (vz pos) (fmul player_width (1 / 2))"
  "vz (box_max (feet_box pos np)) = fadd (vz pos) (fmul player_width (1 / 2))"
  by (simp_all add: feet_box_def setFromCenterAndSize_def Let_def sub64_def add64_def
      multiplyScalar64_def Vector3_def)

lemma half_columns:
  "\<lfloor>fsub (1 / 2) (fmul player_width (1 / 2))\<rfloor> = 0"
  "\<lfloor>fadd (1 / 2) (fmul player_width (1 / 2))\<rfloor> = 0"
proof -
  have w: "fmul player_width (1 / 2) = 5404319552844595 / 18014398509481984"
    by (simp add: player_width_def double_literals double_eval)
  have lo: "fsub (1 / 2) (5404319552844595 / 18014398509481984)
      = 3602879701896397 / 18014398509481984"
    by (simp add: double_eval)
  have hi: "fadd (1 / 2) (5404319552844595 / 18014398509481984)
      = 3602879701896397 / 4503599627370496"
    by (simp add: double_eval)
  show "\<lfloor>fsub (1 / 2) (fmul player_width (1 / 2))\<rfloor> = 0"
    unfolding w lo by simp
  show "\<lfloor>fadd (1 / 2) (fmul player_width (1 / 2))\<rfloor> = 0"
    unfolding w hi by simp
qed

text \<open>
  C5. The Y pass clears \<open>onGround\<close> first and probes the floor only when
  \<open>velocity.y \<le> 0\<close>. The probed row \<open>feetY\<close> is the floor of the bottom of the
  tentative box and the probed columns are those the box spans, all computed in double
  arithmetic. When a probed cell is not air the pass zeroes \<open>velocity.y\<close>, snaps
  \<open>position.y\<close> to \<open>feetY + 1\<close> and sets \<open>onGround\<close>; otherwise \<open>onGround\<close>
  stays false and the tentative height is taken. With the feet at \<open>y = 10\<close>,
  \<open>velocity.y = -0.01\<close> and a block in row \<open>9\<close> under the box, the probed row is
  \<open>9\<close> and the pass ends with \<open>velocity.y = 0\<close>, \<open>position.y = 10\<close> and
  \<open>onGround\<close>.
\<close>

theorem collideY_spec:
  "collideY cs (p, np) =
     (let b = feet_box (position p) np; feetY = \<lfloor>vy (box_min b)\<rfloor> in
      if vy (velocity p) \<le> 0 \<and>
         (\<exists>x\<in>{\<lfloor>vx (box_min b)\<rfloor>..\<lfloor>vx (box_max b)\<rfloor>}.
          \<exists>z\<in>{\<lfloor>vz (box_min b)\<rfloor>..\<lfloor>vz (box_max b)\<rfloor>}.
             getBlock cs x feetY z \<noteq> BLOCKS_air)
      then (p\<lparr>velocity := (velocity p)\<lparr>vy := 0\<rparr>, onGround := True,
              position := (position p)\<lparr>vy := fadd (of_int feetY) 1\<rparr>\<rparr>,
            np\<lparr>vy := fadd (of_int feetY) 1\<rparr>)
      else (p\<lparr>onGround := False, position := (position p)\<lparr>vy := vy np\<rparr>\<rparr>, np))
   \<and> (vy (position p) = 10 \<and> vy (velocity p) = double (- 0.01) \<and>
        (let b = feet_box (position p) (add64 (position p) (velocity p))
         in \<exists>x\<in>{\<lfloor>vx (box_min b)\<rfloor>..\<lfloor>vx (box_max b)\<rfloor>}.
            \<exists>z\<in>{\<lfloor>vz (box_min b)\<rfloor>..\<lfloor>vz (box_max b)\<rfloor>}.
               getBlock cs x 9 z \<noteq> BLOCKS_air) \<longrightarrow>
        (let p' = fst (collideY cs (p, add64 (position p) (velocity p)))
         in vy (velocity p') = 0 \<and> vy (position p') = 10 \<and> onGround p'))"
proof (intro conjI impI)
  show "collideY cs (p, np) =
     (let b = feet_box (position p) np; feetY = \<lfloor>vy (box_min b)\<rfloor> in
      if vy (velocity p) \<le> 0 \<and>
         (\<exists>x\<in>{\<lfloor>vx (box_min b)\<rfloor>..\<lfloor>vx (box_max b)\<rfloor>}.
          \<exists>z\<in>{\<lfloor>vz (box_min b)\<rfloor>..\<lfloor>vz (box_max b)\<rfloor>}.
             getBlock cs x feetY z \<noteq> BLOCKS_air)
      then (p\<lparr>velocity := (velocity p)\<lparr>vy := 0\<rparr>, onGround := True,
              position := (position p)\<lparr>vy := fadd (of_int feetY) 1\<rparr>\<rparr>,
            np\<lparr>vy := fadd (of_int feetY) 1\<rparr>)
      else (p\<lparr>onGround := False, position := (position p)\<lparr>vy := vy np\<rparr>\<rparr>, np))"
    by (rule collideY_eq)
next
  assume a: "vy (position p) = 10 \<and> vy (velocity p) = double (- 0.01) \<and>
        (let b = feet_box (position p) (add64 (position p) (velocity p))
         in \<exists>x\<in>{\<lfloor>vx (box_min b)\<rfloor>..\<lfloor>vx (box_max b)\<rfloor>}.
            \<exists>z\<in>{\<lfloor>vz (box_min b)\<rfloor>..\<lfloor>vz (box_max b)\<rfloor>}.
               getBlock cs x 9 z \<noteq> BLOCKS_air)"
  define np where "np = add64 (position p) (velocity p)"
  define b where "b = feet_box (position p) np"
  have row: "\<lfloor>vy (box_min b)\<rfloor> = 9"
    unfolding b_def np_def using a by (intro feet_row_10) simp_all
  have hit: "\<exists>x\<in>{\<lfloor>vx (box_min b)\<rfloor>..\<lfloor>vx (box_max b)\<rfloor>}.
          \<exists>z\<in>{\<lfloor>vz (box_min b)\<rfloor>..\<lfloor>vz (box_max b)\<rfloor>}.
             getBlock cs x 9 z \<noteq> BLOCKS_air"
    using a unfolding b_def np_def Let_def by blast
  have le: "vy (velocity p) \<le> 0"
  proof -
    have "double (- 0.01) \<le> 0" by (simp add: double_literals)
    with a show ?thesis by simp
  qed
  have "collideY cs (p, np) =
      (p\<lparr>velocity := (velocity p)\<lparr>vy := 0\<rparr>, onGround := True,
              position := (position p)\<lparr>vy := 10\<rparr>\<rparr>,
            np\<lparr>vy := 10\<rparr>)"
    unfolding collideY_eq b_def [symmetric] Let_def row using hit le
    by (simp add: fadd_9_1)
  then show "let p' = fst (collideY cs (p, add64 (position p) (velocity p)))
         in vy (velocity p') = 0 \<and> vy (position p') = 10 \<and> onGround p'"
    unfolding np_def [symmetric] by simp
qed

theorem collideY_spec_witness:
  "(let p = \<lparr>position = Vector3 0.5 10 0.5, velocity = Vector3 0 (double (- 0.01)) 0,
               onGround = False\<rparr>;
        np = add64 (position p) (velocity p);
        b = feet_box (position p) np
    in (0 \<in> {\<lfloor>vx (box_min b)\<rfloor>..\<lfloor>vx (box_max b)\<rfloor>}
        \<and> 0 \<in> {\<lfloor>vz (box_min b)\<rfloor>..\<lfloor>vz (box_max b)\<rfloor>}
        \<and> getBlock floor_example 0 9 0 \<noteq> BLOCKS_air)
       \<and> (let p' = fst (collideY floor_example (p, np))
          in vy (velocity p') = 0 \<and> vy (position p') = 10 \<and> onGround p'))"
proof -
  let ?p = "\<lparr>position = Vector3 0.5 10 0.5, velocity = Vector3 0 (double (- 0.01)) 0,
    onGround = False\<rparr>"
  let ?np = "add64 (position ?p) (velocity ?p)"
  let ?b = "feet_box (position ?p) ?np"
  have solid: "getBlock floor_example 0 9 0 \<noteq> BLOCKS_air"
    by (simp add: getBlock_floor_example BLOCKS_air_def)
  have cols: "0 \<in> {\<lfloor>vx (box_min ?b)\<rfloor>..\<lfloor>vx (box_max ?b)\<rfloor>}"
    "0 \<in> {\<lfloor>vz (box_min ?b)\<rfloor>..\<lfloor>vz (box_max ?b)\<rfloor>}"
    by (simp_all add: feet_box_columns Vector3_def half_columns)
  have h: "vy (position ?p) = 10 \<and> vy (velocity ?p) = double (- 0.01) \<and>
        (let b = feet_box (position ?p) (add64 (position ?p) (velocity ?p))
         in \<exists>x\<in>{\<lfloor>vx (box_min b)\<rfloor>..\<lfloor>vx (box_max b)\<rfloor>}.
            \<exists>z\<in>{\<lfloor>vz (box_min b)\<rfloor>..\<lfloor>vz (box_max b)\<rfloor>}.
               getBlock floor_example x 9 z \<noteq> BLOCKS_air)"
    unfolding Let_def using solid cols by (intro conjI bexI [of _ 0]) (simp_all add: Vector3_def)
  have "let p' = fst (collideY floor_example (?p, ?np))
        in vy (velocity p') = 0 \<and> vy (position p') = 10 \<and> onGround p'"
    using collideY_spec [where cs = floor_example and p = ?p and np = ?np] h
    by blast
  with solid cols show ?thesis
    unfolding Let_def by blast
qed

text \<open>
  Rounding decides the probed row: from \<open>y = 1.01\<close> with \<open>velocity.y = -0.01\<close> the
  tentative height is the double \<open>1\<close>, the bottom of the box is
  \<open>(1 + 0.9) - 0.9 = 0.9999999999999999\<close>, and the player lands on the block in row
  \<open>0\<close>.
\<close>

lemma getBlock_ground_example: "getBlock ground_example 0 0 0 = 1"
  by (simp add: getBlock_def ground_example_def WORLD_HEIGHT_def CHUNK_SIZE_def block_index_def
      u8_read_def or_air_def)

lemma collideY_rounding_example:
  "(let p = \<lparr>position = Vector3 0.5 (double 1.01) 0.5, velocity = Vector3 0 (double (- 0.01)) 0,
               onGround = False\<rparr>;
        np = add64 (position p) (velocity p);
        p' = fst (collideY ground_example (p, np))
    in vy np = 1 \<and> vy (box_min (feet_box (position p) np)) = 9007199254740991 / 9007199254740992
       \<and> vy (velocity p') = 0 \<and> vy (position p') = 1 \<and> onGround p')"
proof -
  let ?p = "\<lparr>position = Vector3 0.5 (double 1.01) 0.5, velocity = Vector3 0 (double (- 0.01)) 0,
    onGround = False\<rparr>"
  let ?np = "add64 (position ?p) (velocity ?p)"
  let ?b = "feet_box (position ?p) ?np"
  have np: "vy ?np = 1"
    by (simp add: add64_def Vector3_def double_eval)
  have h: "fdiv player_height 2 = 8106479329266893 / 9007199254740992"
    by (simp add: player_height_def double_literals double_eval)
  have h': "fmul player_height (1 / 2) = 8106479329266893 / 9007199254740992"
    by (simp add: player_height_def double_literals double_eval)
  have c: "fadd 1 (8106479329266893 / 9007199254740992) = 4278419646001971 / 2251799813685248"
    by (simp add: double_eval)
  have m: "fsub (4278419646001971 / 2251799813685248) (8106479329266893 / 9007199254740992)
      = 9007199254740991 / 9007199254740992"
    by (simp add: double_eval)
  have miny: "vy (box_min ?b) = 9007199254740991 / 9007199254740992"
    unfolding feet_box_y np h h' c m ..
  have row: "\<lfloor>vy (box_min ?b)\<rfloor> = 0"
    unfolding miny by simp
  have cols: "\<lfloor>vx (box_min ?b)\<rfloor> = 0" "\<lfloor>vx (box_max ?b)\<rfloor> = 0"
    "\<lfloor>vz (box_min ?b)\<rfloor> = 0" "\<lfloor>vz (box_max ?b)\<rfloor> = 0"
    by (simp_all add: feet_box_columns Vector3_def half_columns)
  have le: "vy (velocity ?p) \<le> 0"
    by (simp add: Vector3_def double_literals)
  have one: "fadd 0 1 = 1"
    by (simp add: double_eval)
  have "collideY ground_example (?p, ?np) =
      (?p\<lparr>velocity := (velocity ?p)\<lparr>vy := 0\<rparr>, onGround := True,
              position := (position ?p)\<lparr>vy := 1\<rparr>\<rparr>,
            ?np\<lparr>vy := 1\<rparr>)"
    unfolding collideY_eq Let_def row cols using le
    by (simp add: one getBlock_ground_example BLOCKS_air_def)
  with np miny show ?thesis
    unfolding Let_def by simp
qed

text \<open>
  C10. The enumeration has no \<open>water\<close> entry, so the second comparison of the floor
  test is against \<open>undefined\<close> and never fails: the test is \<open>block \<noteq> air\<close>, glass
  and leaves are floor, and the probe of the Y pass hits exactly when some probed cell
  is not air.
\<close>

theorem water_test_spec:
  "BLOCKS ''water'' = None
   \<and> floor_hit b = (b \<noteq> BLOCKS_air)
   \<and> floor_hit BLOCKS_glass \<and> floor_hit BLOCKS_leaves
   \<and> probe_x cs feetY startX endX startZ endZ =
       (\<exists>x\<in>{startX..endX}. \<exists>z\<in>{startZ..endZ}. getBlock cs x feetY z \<noteq> BLOCKS_air)"
  by (simp add: probe_x_iff floor_hit_iff)
    (simp add: BLOCKS_def BLOCKS_air_def BLOCKS_glass_def BLOCKS_leaves_def)

section \<open>Properties of voxel picking\<close>

lemma ticks_numeral:
  "ticks (numeral k) t =
     t # ticks (pred_numeral k) (fadd t (3602879701896397 / 36028797018963968))"
  by (simp add: numeral_eq_Suc double_literals)

lemma ticks_one: "ticks (Suc 0) t = [t]"
  by simp

lemma ticks_values: "ticks 102 0 = tick_values"
  unfolding tick_values_def
  by (simp add: ticks_numeral ticks_one double_eval del: ticks.simps(2))

lemma ticks_nth: "k < n \<Longrightarrow> ticks n (sample_t m) ! k = sample_t (m + k)"
proof (induction n arbitrary: k m)
  case 0
  then show ?case by simp
next
  case (Suc n)
  show ?case
  proof (cases k)
    case 0
    then show ?thesis by simp
  next
    case (Suc j)
    with Suc.prems have "j < n" by simp
    from Suc.IH [OF this, of "Suc m"] Suc show ?thesis
      by simp
  qed
qed

lemma sample_t_nth: "k < 102 \<Longrightarrow> sample_t k = tick_values ! k"
  using ticks_nth [of k 102 0] by (simp add: ticks_values)

lemma tick_values_lt: "\<forall>v\<in>set (take 101 tick_values). v < 10"
  unfolding tick_values_def by simp

lemma sample_t_lt: "k \<le> 100 \<Longrightarrow> sample_t k < 10"
proof -
  assume k: "k \<le> 100"
  have len: "length tick_values = 102"
    by (simp add: tick_values_def)
  have "take 101 tick_values ! k \<in> set (take 101 tick_values)"
    using k len by (intro nth_mem) simp
  with tick_values_lt have "take 101 tick_values ! k < 10"
    by blast
  with k show ?thesis
    by (simp add: sample_t_nth)
qed

lemma sample_t_100: "sample_t 100 = 5629499534213109 / 562949953421312"
  by (simp add: sample_t_nth) (simp add: tick_values_def)

lemma sample_t_101: "sample_t 101 = 710724316194405 / 70368744177664"
  by (simp add: sample_t_nth) (simp add: tick_values_def)

lemma march_find:
  "k \<le> 101 \<Longrightarrow>
   march cs origin direction (sample_t k) =
     Some (case List.find (sample_solid cs origin direction) [k..<101] of
        None \<Rightarrow> None
      | Some i \<Rightarrow> Some \<lparr>hit_position = v_floor (sample_point origin direction i),
                        hit_normal = heuristic_normal (sample_diff origin direction i)\<rparr>)"
proof (induction "101 - k" arbitrary: k)
  case 0
  then have "k = 101" by simp
  then show ?case
    by (subst march.simps) (simp add: sample_t_101)
next
  case (Suc n)
  then have lt: "k < 101" by simp
  then have upt: "[k..<101] = k # [Suc k..<101]"
    by (simp add: upt_conv_Cons)
  have tlt: "sample_t k < 10" using lt by (simp add: sample_t_lt)
  have IH: "march cs origin direction (sample_t (Suc k)) =
     Some (case List.find (sample_solid cs origin direction) [Suc k..<101] of
        None \<Rightarrow> None
      | Some i \<Rightarrow> Some \<lparr>hit_position = v_floor (sample_point origin direction i),
                        hit_normal = heuristic_normal (sample_diff origin direction i)\<rparr>)"
    using Suc.hyps(1) [of "Suc k"] Suc.hyps(2) lt by simp
  show ?case
  proof (cases "sample_solid cs origin direction k")
    case True
    then show ?thesis
      using tlt
      by (subst march.simps)
        (simp add: upt Let_def sample_solid_def sample_point_def sample_diff_def
          split: prod.splits)
  next
    case False
    then show ?thesis
      using tlt IH
      by (subst march.simps)
        (simp add: upt Let_def sample_solid_def sample_point_def split: prod.splits)
  qed
qed

lemma heuristic_normal_cases:
  "heuristic_normal v = (nx, ny, nz) \<Longrightarrow>
   \<bar>nx\<bar> + \<bar>ny\<bar> + \<bar>nz\<bar> = 1
   \<and> (nx \<noteq> 0 \<longrightarrow> \<bar>vx v\<bar> > \<bar>vy v\<bar> \<and> \<bar>vx v\<bar> > \<bar>vz v\<bar> \<and> nx = (if vx v > 0 then - 1 else 1))
   \<and> (ny \<noteq> 0 \<longrightarrow> \<bar>vy v\<bar> \<ge> \<bar>vx v\<bar> \<and> \<bar>vy v\<bar> > \<bar>vz v\<bar> \<and> ny = (if vy v > 0 then - 1 else 1))
   \<and> (nz \<noteq> 0 \<longrightarrow> \<bar>vz v\<bar> \<ge> \<bar>vx v\<bar> \<and> \<bar>vz v\<bar> \<ge> \<bar>vy v\<bar> \<and> nz = (if vz v > 0 then - 1 else 1))"
  by (auto simp: heuristic_normal_def split: if_splits)

lemma pick_find:
  "getVoxelIntersection cs origin direction =
     Some (case List.find (sample_solid cs origin direction) [0..<101] of
        None \<Rightarrow> None
      | Some i \<Rightarrow> Some \<lparr>hit_position = v_floor (sample_point origin direction i),
                        hit_normal = heuristic_normal (sample_diff origin direction i)\<rparr>)"
  using march_find [of 0 cs origin direction] by (simp add: getVoxelIntersection_def)

lemma sample_t_low:
  "sample_t 0 = 0"
  "sample_t 1 = 3602879701896397 / 36028797018963968"
  "sample_t 2 = 3602879701896397 / 18014398509481984"
  "sample_t 3 = 1351079888211149 / 4503599627370496"
  by (simp_all add: eval_nat_numeral double_literals double_eval)

lemma upt_101: "[0..<101] = 0 # 1 # 2 # 3 # [4..<101]"
  by (simp add: upt_conv_Cons)

lemma sample_solid_eq:
  "sample_solid cs origin direction k =
     (getBlock cs \<lfloor>fadd (vx origin) (fmul (vx direction) (sample_t k))\<rfloor>
        \<lfloor>fadd (vy origin) (fmul (vy direction) (sample_t k))\<rfloor>
        \<lfloor>fadd (vz origin) (fmul (vz direction) (sample_t k))\<rfloor> \<noteq> BLOCKS_air)"
  by (simp add: sample_solid_def sample_point_def ray_at_def v_floor_def add64_def
      multiplyScalar64_def)

text \<open>
  C8. The loop of \<open>getVoxelIntersection\<close> returns, after sampling the ray at the
  parameters \<open>sample_t 0, \<dots>, sample_t 100\<close>: the sum of a hundred doubles \<open>0.1\<close> is
  \<open>9.99999999999998\<close>, still below \<open>10\<close>, so there are \<open>101\<close> samples. The result is
  the first sample whose block is not air, with the floored sample point and the
  normal picked from the scaled difference of that sample and the point one step back;
  it is none exactly when all the samples are in air. The normal is a unit vector along
  one axis, that axis carries a component of greatest magnitude, and a tie goes to the
  later test of the chain: \<open>x\<close> only when strictly greatest, \<open>y\<close> when strictly greater
  than \<open>z\<close>, \<open>z\<close> otherwise. Its sign is \<open>-1\<close> for a positive component and \<open>1\<close>
  otherwise.
\<close>

theorem getVoxelIntersection_spec:
  "getVoxelIntersection cs origin direction =
     Some (case List.find (sample_solid cs origin direction) [0..<101] of
        None \<Rightarrow> None
      | Some i \<Rightarrow>
          Some \<lparr>hit_position = v_floor (sample_point origin direction i),
                hit_normal = heuristic_normal (sample_diff origin direction i)\<rparr>)
   \<and> (getVoxelIntersection cs origin direction = Some None \<longleftrightarrow>
        (\<forall>k<101. \<not> sample_solid cs origin direction k))
   \<and> sample_t 100 < 10 \<and> 10 \<le> sample_t 101
   \<and> (heuristic_normal v = (nx, ny, nz) \<longrightarrow>
        \<bar>nx\<bar> + \<bar>ny\<bar> + \<bar>nz\<bar> = 1
        \<and> (nx \<noteq> 0 \<longrightarrow> \<bar>vx v\<bar> > \<bar>vy v\<bar> \<and> \<bar>vx v\<bar> > \<bar>vz v\<bar> \<and> nx = (if vx v > 0 then - 1 else 1))
        \<and> (ny \<noteq> 0 \<longrightarrow> \<bar>vy v\<bar> \<ge> \<bar>vx v\<bar> \<and> \<bar>vy v\<bar> > \<bar>vz v\<bar> \<and> ny = (if vy v > 0 then - 1 else 1))
        \<and> (nz \<noteq> 0 \<longrightarrow> \<bar>vz v\<bar> \<ge> \<bar>vx v\<bar> \<and> \<bar>vz v\<bar> \<ge> \<bar>vy v\<bar> \<and> nz = (if vz v > 0 then - 1 else 1)))"
proof -
  note m = pick_find [of cs origin direction]
  have none: "getVoxelIntersection cs origin direction = Some None \<longleftrightarrow>
        (\<forall>k<101. \<not> sample_solid cs origin direction k)"
  proof (cases "List.find (sample_solid cs origin direction) [0..<101]")
    case None
    then have "\<forall>k<101. \<not> sample_solid cs origin direction k"
      by (auto simp: find_None_iff)
    with None show ?thesis
      unfolding m by simp
  next
    case (Some i)
    then have "i < 101 \<and> sample_solid cs origin direction i"
      by (auto simp: find_Some_iff)
    with Some show ?thesis
      unfolding m by auto
  qed
  have t: "sample_t 100 < 10 \<and> 10 \<le> sample_t 101"
    by (simp add: sample_t_100 sample_t_101)
  show ?thesis
    using m none t heuristic_normal_cases [of v nx ny nz]
    by simp
qed

theorem getVoxelIntersection_spec_witness:
  "sample_solid floor_example (Vector3 0.5 10.25 0.5) (Vector3 0 (- 1) 0) 3
   \<and> \<not> sample_solid floor_example (Vector3 0.5 10.25 0.5) (Vector3 0 (- 1) 0) 0
   \<and> \<not> sample_solid floor_example (Vector3 0.5 10.25 0.5) (Vector3 0 (- 1) 0) 1
   \<and> \<not> sample_solid floor_example (Vector3 0.5 10.25 0.5) (Vector3 0 (- 1) 0) 2
   \<and> getVoxelIntersection floor_example (Vector3 0.5 10.25 0.5) (Vector3 0 (- 1) 0) =
     Some (Some \<lparr>hit_position = (0, 9, 0), hit_normal = (0, 1, 0)\<rparr>)
   \<and> getVoxelIntersection floor_example (Vector3 0.5 10.25 0.5) (Vector3 0 (- 1) 0) \<noteq> Some None
   \<and> sample_diff (Vector3 0.5 10.25 0.5) (Vector3 0 (- 1) 0) 3 =
       Vector3 0 (- (70368744177665 / 70368744177664)) 0"
proof -
  let ?o = "Vector3 0.5 10.25 0.5" and ?d = "Vector3 0 (- 1) 0"
  have s0: "\<not> sample_solid floor_example ?o ?d 0"
    by (simp add: sample_solid_eq Vector3_def sample_t_low double_eval getBlock_floor_example_10
        BLOCKS_air_def)
  have s1: "\<not> sample_solid floor_example ?o ?d 1"
    by (simp add: sample_solid_eq Vector3_def sample_t_low double_eval getBlock_floor_example_10
        BLOCKS_air_def)
  have s2: "\<not> sample_solid floor_example ?o ?d 2"
    by (simp add: sample_solid_eq Vector3_def sample_t_low double_eval getBlock_floor_example_10
        BLOCKS_air_def)
  have s3: "sample_solid floor_example ?o ?d 3"
    by (simp add: sample_solid_eq Vector3_def sample_t_low double_eval getBlock_floor_example
        BLOCKS_air_def)
  have f: "List.find (sample_solid floor_example ?o ?d) [0..<101] = Some 3"
    unfolding upt_101 using s0 s1 s2 s3 by simp
  have pos: "v_floor (sample_point ?o ?d 3) = (0, 9, 0)"
    by (simp add: sample_point_def ray_at_def v_floor_def add64_def multiplyScalar64_def
        Vector3_def sample_t_low double_eval)
  have diff: "sample_diff ?o ?d 3 = Vector3 0 (- (70368744177665 / 70368744177664)) 0"
    by (simp add: sample_diff_def sample_point_def ray_at_def add64_def sub64_def
        multiplyScalar64_def Vector3_def sample_t_low double_literals double_eval)
  have n: "heuristic_normal (sample_diff ?o ?d 3) = (0, 1, 0)"
    unfolding diff by (simp add: heuristic_normal_def Vector3_def)
  have r: "getVoxelIntersection floor_example ?o ?d =
      Some (Some \<lparr>hit_position = (0, 9, 0), hit_normal = (0, 1, 0)\<rparr>)"
    using getVoxelIntersection_spec [of floor_example ?o ?d "sample_diff ?o ?d 3" 0 1 0] f pos n
    by (simp cong: option.case_cong)
  from r have "getVoxelIntersection floor_example ?o ?d \<noteq> Some None"
    by simp
  with s0 s1 s2 s3 r diff show ?thesis
    by blast
qed

text \<open>
  A tie does not go to the earlier axis: for the ray from \<open>(0.5, 9.5, 0.5)\<close> in the
  direction \<open>(1, 0, 1)\<close> the difference has equal \<open>x\<close> and \<open>z\<close> components, and the
  normal is along \<open>z\<close>.
\<close>

theorem getVoxelIntersection_tie_counterexample:
  "sample_diff (Vector3 0.5 9.5 0.5) (Vector3 1 0 1) 0 =
     Vector3 (4503599627370495 / 4503599627370496) 0 (4503599627370495 / 4503599627370496)
   \<and> getVoxelIntersection floor_example (Vector3 0.5 9.5 0.5) (Vector3 1 0 1) =
     Some (Some \<lparr>hit_position = (0, 9, 0), hit_normal = (0, 0, - 1)\<rparr>)"
proof -
  let ?o = "Vector3 0.5 9.5 0.5" and ?d = "Vector3 1 0 1"
  have s0: "sample_solid floor_example ?o ?d 0"
    by (simp add: sample_solid_eq Vector3_def double_eval getBlock_floor_example BLOCKS_air_def)
  have f: "List.find (sample_solid floor_example ?o ?d) [0..<101] = Some 0"
    unfolding upt_101 using s0 by simp
  have pos: "v_floor (sample_point ?o ?d 0) = (0, 9, 0)"
    by (simp add: sample_point_def ray_at_def v_floor_def add64_def multiplyScalar64_def
        Vector3_def double_eval)
  have diff: "sample_diff ?o ?d 0 =
      Vector3 (4503599627370495 / 4503599627370496) 0 (4503599627370495 / 4503599627370496)"
    by (simp add: sample_diff_def sample_point_def ray_at_def add64_def sub64_def
        multiplyScalar64_def Vector3_def double_literals double_eval)
  have n: "heuristic_normal (sample_diff ?o ?d 0) = (0, 0, - 1)"
    unfolding diff by (simp add: heuristic_normal_def Vector3_def)
  have "getVoxelIntersection floor_example ?o ?d =
      Some (Some \<lparr>hit_position = (0, 9, 0), hit_normal = (0, 0, - 1)\<rparr>)"
    using pick_find [of floor_example ?o ?d] f pos n
    by (simp cong: option.case_cong)
  with diff show ?thesis
    by simp
qed

lemma find_last: "(\<And>k. k < n \<Longrightarrow> \<not> P k) \<Longrightarrow> P n \<Longrightarrow> List.find P [0..<Suc n] = Some n"
proof -
  assume a: "\<And>k. k < n \<Longrightarrow> \<not> P k" and b: "P n"
  have "\<exists>i<length [0..<Suc n]. P ([0..<Suc n] ! i) \<and> n = [0..<Suc n] ! i
      \<and> (\<forall>j<i. \<not> P ([0..<Suc n] ! j))"
    using a b by (intro exI [of _ n]) (simp add: nth_append)
  then show ?thesis
    by (simp only: find_Some_iff)
qed

lemma getBlock_far_example:
  "0 \<le> x \<Longrightarrow> x < 16 \<Longrightarrow> getBlock far_example x 0 0 = (if x = 10 then 1 else 0)"
proof -
  assume x: "0 \<le> x" "x < 16"
  then have l: "local_coord x = x"
    by (simp add: local_coord_def CHUNK_SIZE_def signed_modulo_int_def sgn_if)
  have n: "nat x < 16384" using x by simp
  show ?thesis
    using x n
    by (auto simp add: getBlock_def far_example_def WORLD_HEIGHT_def CHUNK_SIZE_def l
        block_index_def u8_read_def or_air_def Let_def BLOCKS_air_def nth_list_update)
qed

lemma far_samples:
  "\<forall>t\<in>set (take 100 tick_values).
     0 \<le> fadd (1 / 16) (fmul 1 t) \<and> fadd (1 / 16) (fmul 1 t) < 10"
proof -
  define g :: "real \<Rightarrow> real" where "g t = fadd (1 / 16) (fmul 1 t)" for t
  have "list_all (\<lambda>v. 0 \<le> v \<and> v < 10) (map g (take 100 tick_values))"
    unfolding tick_values_def
    by (simp add: g_def [of 0] g_def [of 1] g_def [of "numeral a" for a]
        g_def [of "1 / numeral b" for b] g_def [of "numeral a / numeral b" for a b] double_eval)
  then show ?thesis
    by (simp add: list_all_iff g_def)
qed

text \<open>
  The last sample counts: with stone only in the cell \<open>(10, 0, 0)\<close>, the ray from
  \<open>(0.0625, 0.5, 0.5)\<close> along \<open>x\<close> is in air for the samples \<open>0, \<dots>, 99\<close> and hits
  the block with sample \<open>100\<close>.
\<close>

lemma getVoxelIntersection_last_sample:
  "(\<forall>k<100. \<not> sample_solid far_example (Vector3 0.0625 0.5 0.5) (Vector3 1 0 0) k)
   \<and> getVoxelIntersection far_example (Vector3 0.0625 0.5 0.5) (Vector3 1 0 0) =
       Some (Some \<lparr>hit_position = (10, 0, 0), hit_normal = (- 1, 0, 0)\<rparr>)"
proof -
  let ?o = "Vector3 0.0625 0.5 0.5" and ?d = "Vector3 1 0 0"
  have yz: "\<lfloor>fadd (1 / 2) (fmul 0 t)\<rfloor> = 0" for t
    by (simp add: double_eval)
  have air: "\<not> sample_solid far_example ?o ?d k" if "k < 100" for k
  proof -
    have len: "length tick_values = 102"
      by (simp add: tick_values_def)
    have "take 100 tick_values ! k \<in> set (take 100 tick_values)"
      using that len by (intro nth_mem) simp
    with far_samples that
    have r: "0 \<le> fadd (1 / 16) (fmul 1 (sample_t k))" "fadd (1 / 16) (fmul 1 (sample_t k)) < 10"
      by (auto simp: sample_t_nth)
    define x where "x = \<lfloor>fadd (1 / 16) (fmul 1 (sample_t k))\<rfloor>"
    have "0 \<le> x" "x < 10"
      using r by (simp_all add: x_def floor_less_iff)
    then have "getBlock far_example x 0 0 = 0"
      by (simp add: getBlock_far_example)
    then show ?thesis
      by (simp add: sample_solid_eq Vector3_def yz x_def BLOCKS_air_def)
  qed
  have x100: "fadd (1 / 16) (fmul 1 (sample_t 100)) = 5664683906301941 / 562949953421312"
    by (simp add: sample_t_100 double_eval)
  have s100: "sample_solid far_example ?o ?d 100"
    by (simp add: sample_solid_eq Vector3_def yz x100 getBlock_far_example BLOCKS_air_def)
  have f: "List.find (sample_solid far_example ?o ?d) [0..<101] = Some 100"
    using find_last [of 100 "sample_solid far_example ?o ?d"] air s100 by simp
  have pos: "v_floor (sample_point ?o ?d 100) = (10, 0, 0)"
    by (simp add: sample_point_def ray_at_def v_floor_def add64_def multiplyScalar64_def
        Vector3_def yz x100)
  have diff: "sample_diff ?o ?d 100 = Vector3 (281474976710655 / 281474976710656) 0 0"
    by (simp add: sample_diff_def sample_point_def ray_at_def add64_def sub64_def
        multiplyScalar64_def Vector3_def sample_t_100 double_literals double_eval)
  have n: "heuristic_normal (sample_diff ?o ?d 100) = (- 1, 0, 0)"
    unfolding diff by (simp add: heuristic_normal_def Vector3_def)
  have "getVoxelIntersection far_example ?o ?d =
      Some (Some \<lparr>hit_position = (10, 0, 0), hit_normal = (- 1, 0, 0)\<rparr>)"
    using pick_find [of far_example ?o ?d] f pos n
    by (simp cong: option.case_cong)
  with air show ?thesis
    by blast
qed

end
